theory Spec2Isabelle
  imports Complex_Main
begin

section \<open>Characters and strings of the Python runtime\<close>

text \<open>
  A Python \<open>str\<close> is a sequence of code points. The messages are modelled as lists of
  \<^typ>\<open>char\<close>, each read as one code point in the range U+0000..U+00FF; the character
  classes below are those of \<open>str.isspace\<close>, \<open>str.isupper\<close> and \<open>str.lower\<close> on that range.
\<close>

definition isspace :: "char \<Rightarrow> bool" where
  "isspace c = (of_char c \<in> {9, 10, 11, 12, 13, 28, 29, 30, 31, 32, 133, 160 :: nat})"

definition isupper :: "char \<Rightarrow> bool" where
  "isupper c = (let n = of_char c :: nat in
     (65 \<le> n \<and> n \<le> 90) \<or> (192 \<le> n \<and> n \<le> 222 \<and> n \<noteq> 215))"

definition lower_chr :: "char \<Rightarrow> char" where
  "lower_chr c = (if isupper c then char_of (of_char c + 32 :: nat) else c)"

definition lower :: "string \<Rightarrow> string" where
  "lower s = map lower_chr s"

text \<open>\<open>s.strip()\<close>: leading and trailing whitespace removed.\<close>

definition strip :: "string \<Rightarrow> string" where
  "strip s = rev (dropWhile isspace (rev (dropWhile isspace s)))"

text \<open>\<open>s.split()\<close>: the maximal runs of non-whitespace characters, in order.\<close>

fun split_aux :: "string \<Rightarrow> string \<Rightarrow> string list" where
  "split_aux w [] = (if w = [] then [] else [rev w])"
| "split_aux w (c # cs) =
     (if isspace c then (if w = [] then split_aux [] cs else rev w # split_aux [] cs)
      else split_aux (c # w) cs)"

definition split :: "string \<Rightarrow> string list" where
  "split s = split_aux [] s"

text \<open>\<open>s.startswith(p)\<close> and \<open>kw in s\<close>.\<close>

fun startswith :: "string \<Rightarrow> string \<Rightarrow> bool" where
  "startswith s [] = True"
| "startswith [] (p # ps) = False"
| "startswith (c # cs) (p # ps) = (c = p \<and> startswith cs ps)"

fun contains :: "string \<Rightarrow> string \<Rightarrow> bool" where
  "contains [] kw = (kw = [])"
| "contains (c # cs) kw = (startswith (c # cs) kw \<or> contains cs kw)"

section \<open>Regular expressions of the \<open>re\<close> module\<close>

text \<open>
  The fragment of regular expressions that the patterns of the program use. Repetition
  is applied to single-character classes only. A match state is the position in the
  subject, the text not yet consumed, and the groups captured so far.
\<close>

datatype rx =
    Eps
  | Bol
  | Lit char
  | Cls "char \<Rightarrow> bool"
  | Star "char \<Rightarrow> bool"
  | Plus "char \<Rightarrow> bool"
  | Opt rx
  | Grp nat rx
  | Seq rx rx

type_synonym mstate = "nat \<times> string \<times> (nat \<times> string) list"

text \<open>A literal matches itself, or under \<open>re.IGNORECASE\<close> any character of the same lower case.\<close>

definition lit_eq :: "bool \<Rightarrow> char \<Rightarrow> char \<Rightarrow> bool" where
  "lit_eq ic x c = (if ic then lower_chr c = lower_chr x else c = x)"

text \<open>Greedy repetition of a class: every possible end, the longest first.\<close>

fun star_run :: "(char \<Rightarrow> bool) \<Rightarrow> mstate \<Rightarrow> mstate list" where
  "star_run P (p, [], g) = [(p, [], g)]"
| "star_run P (p, c # cs, g) =
     (if P c then star_run P (Suc p, cs, g) else []) @ [(p, c # cs, g)]"

text \<open>
  All the ways an expression matches at a state, in the order in which the backtracking
  matcher tries them; the head of the list is the match that \<open>re\<close> reports.
\<close>

fun rx_run :: "bool \<Rightarrow> rx \<Rightarrow> mstate \<Rightarrow> mstate list" where
  "rx_run ic Eps st = [st]"
| "rx_run ic Bol (p, s, g) = (if p = 0 then [(p, s, g)] else [])"
| "rx_run ic (Lit x) (p, s, g) =
     (case s of [] \<Rightarrow> [] | c # cs \<Rightarrow> if lit_eq ic x c then [(Suc p, cs, g)] else [])"
| "rx_run ic (Cls P) (p, s, g) =
     (case s of [] \<Rightarrow> [] | c # cs \<Rightarrow> if P c then [(Suc p, cs, g)] else [])"
| "rx_run ic (Star P) st = star_run P st"
| "rx_run ic (Plus P) (p, s, g) =
     (case s of [] \<Rightarrow> [] | c # cs \<Rightarrow> if P c then star_run P (Suc p, cs, g) else [])"
| "rx_run ic (Opt r) st = rx_run ic r st @ [st]"
| "rx_run ic (Grp n r) (p, s, g) =
     map (\<lambda>(p', s', g'). (p', s', (n, take (p' - p) s) # g')) (rx_run ic r (p, s, g))"
| "rx_run ic (Seq r1 r2) st = concat (map (rx_run ic r2) (rx_run ic r1 st))"

definition cat :: "rx list \<Rightarrow> rx" where
  "cat rs = foldr Seq rs Eps"

text \<open>\<open>re.match(r, s, flags)\<close>: the first match at position 0, if any.\<close>

definition re_match :: "bool \<Rightarrow> rx \<Rightarrow> string \<Rightarrow> mstate option" where
  "re_match ic r s = (case rx_run ic r (0, s, []) of [] \<Rightarrow> None | st # _ \<Rightarrow> Some st)"

text \<open>\<open>re.search(r, s)\<close>: the first match at the leftmost position that has one.\<close>

fun search_from :: "bool \<Rightarrow> rx \<Rightarrow> nat \<Rightarrow> string \<Rightarrow> mstate option" where
  "search_from ic r p [] = (case rx_run ic r (p, [], []) of [] \<Rightarrow> None | st # _ \<Rightarrow> Some st)"
| "search_from ic r p (c # cs) =
     (case rx_run ic r (p, c # cs, []) of [] \<Rightarrow> search_from ic r (Suc p) cs | st # _ \<Rightarrow> Some st)"

definition re_search :: "bool \<Rightarrow> rx \<Rightarrow> string \<Rightarrow> mstate option" where
  "re_search ic r s = search_from ic r 0 s"

text \<open>\<open>m.group(n)\<close> of a match.\<close>

definition group :: "mstate \<Rightarrow> nat \<Rightarrow> string option" where
  "group st n = map_of (snd (snd st)) n"

text \<open>
  \<open>re.sub(r, repl, s)\<close>: every non-overlapping match, scanning left to right, replaced
  by \<open>repl\<close>; an empty match is replaced and the scan moves on by one character.
\<close>

function sub_from :: "bool \<Rightarrow> rx \<Rightarrow> string \<Rightarrow> nat \<Rightarrow> string \<Rightarrow> string" where
  "sub_from ic r repl p s =
     (case rx_run ic r (p, s, []) of
        [] \<Rightarrow> (case s of [] \<Rightarrow> [] | c # cs \<Rightarrow> c # sub_from ic r repl (Suc p) cs)
      | (p', s', g') # _ \<Rightarrow>
          if length s' < length s then repl @ sub_from ic r repl p' s'
          else (case s of [] \<Rightarrow> repl | c # cs \<Rightarrow> repl @ c # sub_from ic r repl (Suc p) cs))"
  by pat_completeness auto
termination
  by (relation "measure (\<lambda>(ic, r, repl, p, s). length s)") auto

definition re_sub :: "rx \<Rightarrow> string \<Rightarrow> string \<Rightarrow> string" where
  "re_sub r repl s = sub_from False r repl 0 s"

section \<open>The table of commit types\<close>

datatype error = HTTPException nat string | KeyError string | IndexError

record commit_type_info =
  pattern :: rx
  type_description :: string
  "keywords" :: "string list"

text \<open>
  The pattern of a commit type \<open>t\<close>, the regular expression
  \<^verbatim>\<open>^t(\([^)]+\))?:\s*.+\<close>. The dot matches every character but the newline.
\<close>

definition conv_pattern :: "string \<Rightarrow> rx" where
  "conv_pattern t =
     cat ([Bol] @ map Lit t @
       [Opt (Grp 1 (cat [Lit CHR ''('', Plus (\<lambda>c. c \<noteq> CHR '')''), Lit CHR '')''])),
        Lit CHR '':'', Star isspace, Plus (\<lambda>c. c \<noteq> CHR 0x0A)])"

text \<open>The dictionary keeps its insertion order, so it is an association list.\<close>

definition COMMIT_TYPES :: "(string \<times> commit_type_info) list" where
  "COMMIT_TYPES =
    [(''feat'', \<lparr>pattern = conv_pattern ''feat'', type_description = ''A new feature'',
        keywords = [''add'', ''new'', ''implement'', ''create'', ''introduce'']\<rparr>),
     (''fix'', \<lparr>pattern = conv_pattern ''fix'', type_description = ''A bug fix'',
        keywords = [''fix'', ''bug'', ''resolve'', ''correct'', ''repair'', ''patch'']\<rparr>),
     (''docs'', \<lparr>pattern = conv_pattern ''docs'', type_description = ''Documentation changes'',
        keywords = [''doc'', ''documentation'', ''readme'', ''comment'', ''guide'']\<rparr>),
     (''style'', \<lparr>pattern = conv_pattern ''style'',
        type_description = ''Code style changes (formatting, semicolons, etc.)'',
        keywords = [''style'', ''format'', ''indent'', ''whitespace'', ''lint'']\<rparr>),
     (''refactor'', \<lparr>pattern = conv_pattern ''refactor'', type_description = ''Code refactoring'',
        keywords = [''refactor'', ''restructure'', ''optimize'', ''improve'', ''clean'']\<rparr>),
     (''perf'', \<lparr>pattern = conv_pattern ''perf'', type_description = ''Performance improvements'',
        keywords = [''performance'', ''perf'', ''speed'', ''optimize'', ''faster'']\<rparr>),
     (''test'', \<lparr>pattern = conv_pattern ''test'', type_description = ''Adding or updating tests'',
        keywords = [''test'', ''testing'', ''spec'', ''coverage'', ''unit'', ''integration'']\<rparr>),
     (''build'', \<lparr>pattern = conv_pattern ''build'',
        type_description = ''Build system or dependency changes'',
        keywords = [''build'', ''dependency'', ''deps'', ''package'', ''npm'', ''pip'']\<rparr>),
     (''ci'', \<lparr>pattern = conv_pattern ''ci'', type_description = ''CI/CD configuration changes'',
        keywords = [''ci'', ''cd'', ''pipeline'', ''jenkins'', ''travis'', ''github actions'']\<rparr>),
     (''chore'', \<lparr>pattern = conv_pattern ''chore'',
        type_description = ''Other changes that don't modify src or test files'',
        keywords = [''chore'', ''update'', ''upgrade'', ''maintenance'', ''config'']\<rparr>),
     (''revert'', \<lparr>pattern = conv_pattern ''revert'', type_description = ''Reverts a previous commit'',
        keywords = [''revert'', ''undo'', ''rollback'']\<rparr>)]"

text \<open>\<open>COMMIT_TYPES[commit_type]\<close>, which raises \<open>KeyError\<close> on a missing key.\<close>

definition lookup_type :: "string \<Rightarrow> error + commit_type_info" where
  "lookup_type commit_type =
     (case map_of COMMIT_TYPES commit_type of
        None \<Rightarrow> Inl (KeyError commit_type)
      | Some info \<Rightarrow> Inr info)"

section \<open>The classifier\<close>

record classification =
  type :: string
  scope :: "string option"
  description :: string
  confidence :: real

text \<open>The pattern \<^verbatim>\<open>\(([^)]+)\)\<close> of \<open>extract_scope\<close>.\<close>

definition scope_rx :: rx where
  "scope_rx = cat [Lit CHR ''('', Grp 1 (Plus (\<lambda>c. c \<noteq> CHR '')'')), Lit CHR '')'']"

definition extract_scope :: "string \<Rightarrow> string option" where
  "extract_scope message =
     (case re_search False scope_rx message of
        Some scope_match \<Rightarrow> group scope_match 1
      | None \<Rightarrow> None)"

text \<open>\<open>sum(1 for kw in keywords if kw in message_lower)\<close>\<close>

definition keyword_matches :: "string list \<Rightarrow> string \<Rightarrow> nat" where
  "keyword_matches kws message_lower = length (filter (contains message_lower) kws)"

text \<open>
  The confidence is a Python float. The only values that arise are 0.5, 0.95 and
  \<open>min (0.6 + n * 0.1) 0.9\<close> for a number \<open>n\<close> of keywords, which as floats are 0.7, 0.8
  and, from three keywords on, 0.9: they are modelled by the real numbers of the same
  names, which are ordered in the same way.
\<close>

definition calculate_confidence :: "string \<Rightarrow> string \<Rightarrow> error + real" where
  "calculate_confidence message commit_type =
     (let message_lower = lower message in
      case lookup_type commit_type of
        Inl e \<Rightarrow> Inl e
      | Inr info \<Rightarrow>
          if re_match True (pattern info) message \<noteq> None then Inr 0.95
          else
            let n = keyword_matches (keywords info) message_lower in
            if n > 0 then Inr (min (0.6 + (real n * 0.1)) 0.9)
            else Inr 0.5)"

text \<open>The pattern \<^verbatim>\<open>^[^:]+:\s*\<close> that \<open>classify_commit\<close> removes from the message.\<close>

definition prefix_rx :: rx where
  "prefix_rx = cat [Bol, Plus (\<lambda>c. c \<noteq> CHR '':''), Lit CHR '':'', Star isspace]"

text \<open>The first loop of \<open>classify_commit\<close>: the first type whose pattern matches.\<close>

fun conventional_loop :: "string \<Rightarrow> (string \<times> commit_type_info) list \<Rightarrow> classification option" where
  "conventional_loop message [] = None"
| "conventional_loop message ((commit_type, info) # rest) =
     (if re_match True (pattern info) message \<noteq> None then
        Some \<lparr>type = commit_type,
              scope = extract_scope message,
              description = re_sub prefix_rx [] message,
              confidence = 0.95\<rparr>
      else conventional_loop message rest)"

text \<open>
  The second loop, on the state \<open>(best_match, best_confidence)\<close>: a type with a keyword
  in the message replaces the best one when its confidence is strictly higher.
\<close>

fun keyword_loop ::
  "string \<Rightarrow> string \<Rightarrow> (string \<times> commit_type_info) list \<Rightarrow> string \<times> real \<Rightarrow> error + string \<times> real" where
  "keyword_loop message message_lower [] best = Inr best"
| "keyword_loop message message_lower ((commit_type, info) # rest) (best_match, best_confidence) =
     (if keyword_matches (keywords info) message_lower > 0 then
        (case calculate_confidence message commit_type of
           Inl e \<Rightarrow> Inl e
         | Inr c \<Rightarrow>
             if c > best_confidence
             then keyword_loop message message_lower rest (commit_type, c)
             else keyword_loop message message_lower rest (best_match, best_confidence))
      else keyword_loop message message_lower rest (best_match, best_confidence))"

definition classify_commit :: "string \<Rightarrow> error + classification" where
  "classify_commit raw =
     (let message = strip raw in
      if message = [] then Inl (HTTPException 400 ''Empty commit message'')
      else
        case conventional_loop message COMMIT_TYPES of
          Some result \<Rightarrow> Inr result
        | None \<Rightarrow>
            (case keyword_loop message (lower message) COMMIT_TYPES (''chore'', 0.0) of
               Inl e \<Rightarrow> Inl e
             | Inr (best_match, best_confidence) \<Rightarrow>
                 Inr \<lparr>type = best_match,
                      scope = None,
                      description = message,
                      confidence = max best_confidence 0.5\<rparr>))"

section \<open>Suggestions\<close>

definition past_tense_indicators :: "string list" where
  "past_tense_indicators = [''added'', ''fixed'', ''updated'', ''changed'', ''removed'', ''created'']"

text \<open>
  \<open>generate_suggestions\<close> appends to a list, check after check. Reading an unknown type
  in the table raises \<open>KeyError\<close>, and \<open>description.split()[0]\<close> raises \<open>IndexError\<close> for a
  description made of whitespace only.
\<close>

text \<open>
  \<open>classification['description'].split()[0].lower() if classification['description'] else ''\<close>
\<close>

definition first_word_of :: "string \<Rightarrow> error + string" where
  "first_word_of desc =
     (if desc \<noteq> []
      then (case split desc of [] \<Rightarrow> Inl IndexError | w # ws \<Rightarrow> Inr (lower w))
      else Inr [])"

definition generate_suggestions :: "string \<Rightarrow> classification \<Rightarrow> error + string list" where
  "generate_suggestions message c =
     (let commit_type = type c in
      case lookup_type commit_type of
        Inl e \<Rightarrow> Inl e
      | Inr info \<Rightarrow>
         (let s1 = (if re_match True (pattern info) message = None
                    then [''Consider using conventional format: '' @ commit_type @ '': '' @ description c]
                    else []);
              s2 = (if length message < 10
                    then s1 @ [''Commit message is too short. Add more details.'']
                    else s1);
              s3 = (if length message > 100
                    then s2 @ [''Commit message is long. Consider keeping summary under 72 characters.'']
                    else s2)
          in
          (case first_word_of (description c) of
             Inl e \<Rightarrow> Inl e
           | Inr first_word \<Rightarrow>
              (let s4 = (if list_ex (startswith first_word) past_tense_indicators
                         then s3 @ [''Use imperative mood (e.g., 'add' instead of 'added')'']
                         else s3);
                   desc = description c;
                   s5 = (if desc \<noteq> [] \<and> isupper (hd desc)
                         then s4 @ [''Start description with lowercase letter'']
                         else s4)
               in Inr s5))))"

section \<open>The endpoints\<close>

record ClassificationResult = classification +
  message :: string
  timestamp :: string
  suggestions :: "string list"

text \<open>\<open>str(e)\<close> of the exceptions; an \<open>HTTPException\<close> prints its status and its detail.\<close>

function digits :: "nat \<Rightarrow> string" where
  "digits n = (if n < 10 then [char_of (48 + n)] else digits (n div 10) @ [char_of (48 + n mod 10)])"
  by pat_completeness auto
termination
  by (relation "measure id") auto

fun str_error :: "error \<Rightarrow> string" where
  "str_error (HTTPException status detail) = digits status @ '': '' @ detail"
| "str_error (KeyError k) = [CHR 0x27] @ k @ [CHR 0x27]"
| "str_error IndexError = ''list index out of range''"

text \<open>
  \<open>classify_message\<close>: every exception of the body, the 400 of an empty message included,
  is caught and raised again with status 500. \<open>now\<close> is the reading of the clock.
\<close>

definition classify_message :: "string \<Rightarrow> string \<Rightarrow> error + ClassificationResult" where
  "classify_message now msg =
     (case classify_commit msg of
        Inl e \<Rightarrow> Inl (HTTPException 500 (str_error e))
      | Inr c \<Rightarrow>
          (case generate_suggestions msg c of
             Inl e \<Rightarrow> Inl (HTTPException 500 (str_error e))
           | Inr sugg \<Rightarrow>
               Inr \<lparr>type = type c, scope = scope c, description = description c,
                    confidence = confidence c,
                    message = msg, timestamp = now, suggestions = sugg\<rparr>))"

datatype batch_item = Classified ClassificationResult | Failed string string

record batch_response =
  results :: "batch_item list"
  total :: nat

text \<open>
  The loop of \<open>classify_batch\<close>; \<open>clock k\<close> is the \<open>k\<close>-th reading of the clock, one
  reading for each message that is classified.
\<close>

fun batch_loop :: "(nat \<Rightarrow> string) \<Rightarrow> nat \<Rightarrow> string list \<Rightarrow> batch_item list" where
  "batch_loop clock k [] = []"
| "batch_loop clock k (msg # msgs) =
     (case classify_commit msg of
        Inl e \<Rightarrow> Failed msg (str_error e) # batch_loop clock k msgs
      | Inr c \<Rightarrow>
          (case generate_suggestions msg c of
             Inl e \<Rightarrow> Failed msg (str_error e) # batch_loop clock k msgs
           | Inr sugg \<Rightarrow>
               Classified \<lparr>type = type c, scope = scope c, description = description c,
                    confidence = confidence c,
                    message = msg, timestamp = clock k, suggestions = sugg\<rparr>
                 # batch_loop clock (Suc k) msgs))"

definition classify_batch :: "(nat \<Rightarrow> string) \<Rightarrow> string list \<Rightarrow> batch_response" where
  "classify_batch clock messages =
     (let rs = batch_loop clock 0 messages in \<lparr>results = rs, total = length rs\<rparr>)"

section \<open>Auxiliary notions for the proofs\<close>

text \<open>
  The definitions of this section are not part of the program: they name the notions that
  the statements and the proofs below speak about.
\<close>

fun lit_prefix :: "bool \<Rightarrow> string \<Rightarrow> string \<Rightarrow> bool" where
  "lit_prefix ic [] s = True"
| "lit_prefix ic (x # xs) [] = False"
| "lit_prefix ic (x # xs) (c # cs) = (lit_eq ic x c \<and> lit_prefix ic xs cs)"

definition keychar :: "char \<Rightarrow> bool" where
  "keychar c = (lower_chr c = c \<and> c \<noteq> CHR ''('' \<and> c \<noteq> CHR '':'')"

definition conv_body :: rx where
  "conv_body = foldr Seq [Lit CHR '':'', Star isspace, Plus (\<lambda>c. c \<noteq> CHR 0x0A)] Eps"

definition conv_scope :: rx where
  "conv_scope = Grp 1 (cat [Lit CHR ''('', Plus (\<lambda>c. c \<noteq> CHR '')''), Lit CHR '')''])"

definition conv_match :: "string \<Rightarrow> string \<Rightarrow> bool" where
  "conv_match t s = (re_match True (conv_pattern t) s \<noteq> None)"

fun first_paren_group :: "string \<Rightarrow> string option" where
  "first_paren_group [] = None"
| "first_paren_group (c # cs) =
     (if c = CHR ''('' \<and> takeWhile (\<lambda>c. c \<noteq> CHR '')'') cs \<noteq> [] \<and> dropWhile (\<lambda>c. c \<noteq> CHR '')'') cs \<noteq> []
      then Some (takeWhile (\<lambda>c. c \<noteq> CHR '')'') cs)
      else first_paren_group cs)"

definition paren_group :: "string \<Rightarrow> string \<Rightarrow> string \<Rightarrow> string \<Rightarrow> bool" where
  "paren_group s pre g post =
     (s = pre @ CHR ''('' # g @ CHR '')'' # post \<and> g \<noteq> [] \<and> CHR '')'' \<notin> set g)"

definition kw_conf :: "nat \<Rightarrow> real" where
  "kw_conf n = min (0.6 + (real n * 0.1)) 0.9"

definition kw_score :: "string \<Rightarrow> string \<times> commit_type_info \<Rightarrow> real" where
  "kw_score low x =
     (if keyword_matches (keywords (snd x)) low > 0
      then kw_conf (keyword_matches (keywords (snd x)) low) else 0)"

fun best_of :: "('a \<times> 'b \<Rightarrow> real) \<Rightarrow> ('a \<times> 'b) list \<Rightarrow> 'a \<times> real \<Rightarrow> 'a \<times> real" where
  "best_of sc [] best = best"
| "best_of sc (x # xs) (bm, bc) =
     best_of sc xs (if sc x > bc then (fst x, sc x) else (bm, bc))"

definition fallback_result :: "string \<Rightarrow> classification" where
  "fallback_result s =
     (let b = best_of (kw_score (lower s)) COMMIT_TYPES (''chore'', 0)
      in \<lparr>type = fst b, scope = None, description = s, confidence = max (snd b) 0.5\<rparr>)"

definition conventional_result :: "string \<Rightarrow> string \<Rightarrow> classification" where
  "conventional_result t s =
     \<lparr>type = t, scope = extract_scope s, description = re_sub prefix_rx [] s, confidence = 0.95\<rparr>"

fun item_message :: "batch_item \<Rightarrow> string" where
  "item_message (Classified r) = message r"
| "item_message (Failed msg e) = msg"

definition item_outcome :: "string \<Rightarrow> string \<Rightarrow> batch_item" where
  "item_outcome ts msg =
     (case classify_commit msg of
        Inl e \<Rightarrow> Failed msg (str_error e)
      | Inr c \<Rightarrow>
          (case generate_suggestions msg c of
             Inl e \<Rightarrow> Failed msg (str_error e)
           | Inr sugg \<Rightarrow>
               Classified \<lparr>type = type c, scope = scope c, description = description c,
                    confidence = confidence c,
                    message = msg, timestamp = ts, suggestions = sugg\<rparr>))"

section \<open>Lemmas\<close>

declare sub_from.simps [simp del]

declare digits.simps [simp del]

subsection \<open>Greedy repetition\<close>

lemma star_run_nonempty: "star_run P st \<noteq> []"
proof -
  obtain p s g where "st = (p, s, g)" by (cases st) auto
  then show ?thesis by (cases s) auto
qed

lemma star_run_hd:
  "hd (star_run P (p, s, g)) = (p + length (takeWhile P s), dropWhile P s, g)"
  by (induction s arbitrary: p) (auto simp: star_run_nonempty)

lemma star_run_det:
  assumes "\<And>p' c cs g'. P c \<Longrightarrow> f (p', c # cs, g') = []"
  shows "concat (map f (star_run P (p, s, g))) = f (p + length (takeWhile P s), dropWhile P s, g)"
  using assms by (induction s arbitrary: p) auto

lemma star_run_set:
  "set (star_run P (p, s, g)) = (\<lambda>k. (p + k, drop k s, g)) ` {..length (takeWhile P s)}"
proof (induction s arbitrary: p)
  case Nil
  then show ?case by simp
next
  case (Cons c cs)
  show ?case
  proof (cases "P c")
    case True
    have "(\<lambda>k. (p + k, drop k (c # cs), g)) ` {..Suc (length (takeWhile P cs))}
        = insert (p, c # cs, g) ((\<lambda>k. (Suc p + k, drop k cs, g)) ` {..length (takeWhile P cs)})"
      (is "?L = ?R")
    proof
      show "?L \<subseteq> ?R"
      proof
        fix x assume "x \<in> ?L"
        then obtain k where k: "k \<le> Suc (length (takeWhile P cs))" "x = (p + k, drop k (c # cs), g)" by auto
        show "x \<in> ?R"
        proof (cases k)
          case 0 then show ?thesis using k by simp
        next
          case (Suc j)
          then have "x = (Suc p + j, drop j cs, g)" "j \<le> length (takeWhile P cs)" using k by auto
          then show ?thesis by blast
        qed
      qed
      show "?R \<subseteq> ?L"
      proof
        fix x assume "x \<in> ?R"
        then consider "x = (p, c # cs, g)" | k where "k \<le> length (takeWhile P cs)" "x = (Suc p + k, drop k cs, g)" by auto
        then show "x \<in> ?L"
        proof cases
          case 1
          then have "x = (p + 0, drop 0 (c # cs), g)" by simp
          then show ?thesis by (metis (mono_tags, lifting) atMost_iff image_eqI le0)
        next
          case 2
          then have "x = (p + Suc k, drop (Suc k) (c # cs), g)" "Suc k \<le> Suc (length (takeWhile P cs))" by auto
          then show ?thesis by (metis (mono_tags, lifting) atMost_iff image_eqI)
        qed
      qed
    qed
    with True Cons show ?thesis by simp
  next
    case False
    then show ?thesis by simp
  qed
qed

subsection \<open>Trimming\<close>

lemma strip_hd: "strip s \<noteq> [] \<Longrightarrow> \<not> isspace (hd (strip s))"
proof -
  assume a: "strip s \<noteq> []"
  let ?u = "dropWhile isspace s"
  from a have d: "dropWhile isspace (rev ?u) \<noteq> []" by (simp add: strip_def)
  then have u: "?u \<noteq> []" by (cases ?u) auto
  have "hd (strip s) = last (dropWhile isspace (rev ?u))"
    using d by (simp add: strip_def hd_rev)
  also have "\<dots> = last (rev ?u)"
    using d by (metis last_appendR takeWhile_dropWhile_id)
  also have "\<dots> = hd ?u" using u by (simp add: last_rev)
  finally show ?thesis using u hd_dropWhile by metis
qed

lemma strip_last: "strip s \<noteq> [] \<Longrightarrow> \<not> isspace (last (strip s))"
proof -
  assume a: "strip s \<noteq> []"
  let ?u = "dropWhile isspace s"
  from a have d: "dropWhile isspace (rev ?u) \<noteq> []" by (simp add: strip_def)
  have "last (strip s) = hd (dropWhile isspace (rev ?u))"
    using d by (simp add: strip_def last_rev)
  then show ?thesis using d hd_dropWhile by metis
qed

subsection \<open>Literals and case\<close>

lemma of_char_lower_chr:
  "(of_char (lower_chr c) :: nat) = (if isupper c then of_char c + 32 else of_char c)"
  by (auto simp: lower_chr_def isupper_def Let_def)

lemma lower_chr_eq_plain:
  assumes "(of_char x :: nat) < 97" and "\<not> isupper x"
  shows "lower_chr c = lower_chr x \<longleftrightarrow> c = x"
proof -
  have "lower_chr c = lower_chr x \<longleftrightarrow> (of_char (lower_chr c) :: nat) = of_char (lower_chr x)"
    by simp
  also have "\<dots> \<longleftrightarrow> (of_char c :: nat) = of_char x"
    using assms by (auto simp: of_char_lower_chr) (auto simp: isupper_def Let_def)
  finally show ?thesis by simp
qed

lemma lit_eq_colon [simp]: "lit_eq ic CHR '':'' c \<longleftrightarrow> c = CHR '':''"
  by (simp add: lit_eq_def lower_chr_eq_plain isupper_def)

lemma lit_eq_lparen [simp]: "lit_eq ic CHR ''('' c \<longleftrightarrow> c = CHR ''(''"
  by (simp add: lit_eq_def lower_chr_eq_plain isupper_def)

lemma lit_eq_rparen [simp]: "lit_eq ic CHR '')'' c \<longleftrightarrow> c = CHR '')''"
  by (simp add: lit_eq_def lower_chr_eq_plain isupper_def)

subsection \<open>The pattern of a commit type\<close>

lemma rx_run_suffix:
  "(p', s', g') \<in> set (rx_run ic r (p, s, g)) \<Longrightarrow> \<exists>w. s = w @ s'"
proof (induction r arbitrary: p s g p' s' g')
  case (Star P)
  then show ?case by (auto simp: star_run_set) (metis append_take_drop_id)
next
  case (Plus P)
  then show ?case
    by (auto simp: star_run_set split: list.splits if_splits) (metis append_Cons append_take_drop_id)
next
  case (Seq r1 r2)
  then obtain p1 s1 g1 where 1: "(p1, s1, g1) \<in> set (rx_run ic r1 (p, s, g))"
    and 2: "(p', s', g') \<in> set (rx_run ic r2 (p1, s1, g1))" by auto
  from Seq.IH(1)[OF 1] Seq.IH(2)[OF 2] show ?case by auto
qed (auto split: list.splits if_splits)

lemma lits_run:
  "rx_run ic (foldr Seq (map Lit t) r) (p, s, g) =
     (if lit_prefix ic t s
      then rx_run ic r (p + length t, drop (length t) s, g) else [])"
proof (induction t arbitrary: p s)
  case Nil
  then show ?case by simp
next
  case (Cons x xs)
  then show ?case by (cases s) auto
qed

lemma lit_prefix_nth: "lit_prefix ic t s \<Longrightarrow> i < length t \<Longrightarrow> lit_eq ic (t ! i) (s ! i)"
  by (induction ic t s arbitrary: i rule: lit_prefix.induct) (auto simp: nth_Cons split: nat.splits)

lemma conv_pattern_run:
  "rx_run True (conv_pattern t) (0, s, []) =
     (if lit_prefix True t s
      then concat (map (rx_run True conv_body) (rx_run True conv_scope (length t, drop (length t) s, [])))
           @ rx_run True conv_body (length t, drop (length t) s, [])
      else [])"
proof -
  have "conv_pattern t = Seq Bol (foldr Seq (map Lit t) (Seq (Opt conv_scope) conv_body))"
    by (simp add: conv_pattern_def cat_def conv_scope_def conv_body_def)
  then show ?thesis
    by (simp add: lits_run)
qed

lemma conv_body_colon:
  "rx_run True conv_body (p, u, g) \<noteq> [] \<Longrightarrow> \<exists>v. u = CHR '':'' # v \<and> v \<noteq> []"
  by (cases u) (auto simp: conv_body_def star_run_set split: if_splits list.splits)

lemma conv_scope_paren:
  "rx_run True conv_scope (p, u, g) \<noteq> [] \<Longrightarrow> \<exists>v. u = CHR ''('' # v"
  by (cases u) (auto simp: conv_scope_def cat_def split: if_splits)

lemma conv_match_iff: "conv_match t s \<longleftrightarrow> rx_run True (conv_pattern t) (0, s, []) \<noteq> []"
  by (simp add: conv_match_def re_match_def split: list.splits)

lemma conv_match_prefix: "conv_match t s \<Longrightarrow> lit_prefix True t s"
  by (simp add: conv_match_iff conv_pattern_run split: if_splits)

lemma conv_match_delim:
  assumes "conv_match t s"
  shows "\<exists>v. drop (length t) s = CHR ''('' # v \<or> drop (length t) s = CHR '':'' # v"
proof -
  let ?u = "drop (length t) s"
  from assms have "rx_run True conv_scope (length t, ?u, []) \<noteq> [] \<or> rx_run True conv_body (length t, ?u, []) \<noteq> []"
    by (auto simp: conv_match_iff conv_pattern_run split: if_splits)
  then show ?thesis using conv_scope_paren conv_body_colon by blast
qed

lemma conv_match_colon:
  assumes "conv_match t s"
  shows "\<exists>w v. s = w @ CHR '':'' # v \<and> v \<noteq> []"
proof -
  let ?u = "drop (length t) s"
  from assms have "(\<exists>st \<in> set (rx_run True conv_scope (length t, ?u, [])). rx_run True conv_body st \<noteq> [])
      \<or> rx_run True conv_body (length t, ?u, []) \<noteq> []"
    by (auto simp: conv_match_iff conv_pattern_run split: if_splits)
  then obtain p1 u1 g1 w1 where "?u = w1 @ u1" "rx_run True conv_body (p1, u1, g1) \<noteq> []"
  proof
    assume "\<exists>st \<in> set (rx_run True conv_scope (length t, ?u, [])). rx_run True conv_body st \<noteq> []"
    then obtain p1 u1 g1 where 1: "(p1, u1, g1) \<in> set (rx_run True conv_scope (length t, ?u, []))"
      and 2: "rx_run True conv_body (p1, u1, g1) \<noteq> []" by auto
    from rx_run_suffix[OF 1] obtain w where "?u = w @ u1" by blast
    with 2 that show thesis by blast
  next
    assume "rx_run True conv_body (length t, ?u, []) \<noteq> []"
    then show thesis using that[of "[]" ?u "length t" "[]"] by simp
  qed
  then obtain v where "?u = w1 @ CHR '':'' # v" "v \<noteq> []" using conv_body_colon by blast
  then have "s = (take (length t) s @ w1) @ CHR '':'' # v"
    by (metis append.assoc append_take_drop_id)
  with \<open>v \<noteq> []\<close> show ?thesis by blast
qed

subsection \<open>At most one type matches a message\<close>

lemma keychar_lit_eq: "keychar x \<Longrightarrow> lit_eq True x c \<Longrightarrow> lower_chr c = x"
  by (simp add: keychar_def lit_eq_def)

lemma keychar_not_delim:
  assumes "keychar x" and "lit_eq True x c"
  shows "c \<noteq> CHR ''('' \<and> c \<noteq> CHR '':''"
proof -
  have "lower_chr CHR ''('' = CHR ''(''" "lower_chr CHR '':'' = CHR '':''"
    by (simp_all add: lower_chr_def isupper_def)
  with assms show ?thesis by (auto simp: keychar_def lit_eq_def)
qed

lemma conv_match_length_le:
  assumes ma: "conv_match a s" and mb: "conv_match b s" and ka: "\<forall>c \<in> set a. keychar c"
  shows "length a \<le> length b"
proof (rule ccontr)
  assume "\<not> length a \<le> length b"
  then have lt: "length b < length a" by simp
  from conv_match_delim[OF mb] obtain v where
    v: "drop (length b) s = CHR ''('' # v \<or> drop (length b) s = CHR '':'' # v" by blast
  then have "drop (length b) s \<noteq> []" by auto
  then have "hd (drop (length b) s) = s ! length b" by (simp add: hd_drop_conv_nth)
  with v have d: "s ! length b = CHR ''('' \<or> s ! length b = CHR '':''" by auto
  have "lit_eq True (a ! length b) (s ! length b)"
    using lit_prefix_nth[OF conv_match_prefix[OF ma] lt] .
  moreover have "keychar (a ! length b)" using ka lt by simp
  ultimately show False using keychar_not_delim d by blast
qed

lemma conv_match_unique:
  assumes m1: "conv_match t1 s" and m2: "conv_match t2 s"
    and k1: "\<forall>c \<in> set t1. keychar c" and k2: "\<forall>c \<in> set t2. keychar c"
  shows "t1 = t2"
proof (rule nth_equalityI)
  show len: "length t1 = length t2"
    using conv_match_length_le[OF m1 m2 k1] conv_match_length_le[OF m2 m1 k2] by simp
  fix i assume i: "i < length t1"
  have "lower_chr (s ! i) = t1 ! i"
    using keychar_lit_eq[OF _ lit_prefix_nth[OF conv_match_prefix[OF m1] i]] k1 i by simp
  moreover have "lower_chr (s ! i) = t2 ! i"
    using keychar_lit_eq[OF _ lit_prefix_nth[OF conv_match_prefix[OF m2]]] k2 i len by simp
  ultimately show "t1 ! i = t2 ! i" by simp
qed

lemma conv_match_hd:
  assumes "conv_match t s" and "t \<noteq> []" and "keychar (hd t)"
  shows "s \<noteq> [] \<and> hd s \<noteq> CHR '':''"
proof -
  from assms obtain x xs where t: "t = x # xs" by (cases t) auto
  from conv_match_prefix[OF assms(1)] t obtain c cs where s: "s = c # cs" and "lit_eq True x c"
    by (cases s) auto
  with assms(3) t show ?thesis using keychar_not_delim by auto
qed

subsection \<open>The table and the first loop\<close>

lemma COMMIT_TYPES_patterns:
  "(t, info) \<in> set COMMIT_TYPES \<Longrightarrow> pattern info = conv_pattern t \<and> t \<noteq> [] \<and> (\<forall>c \<in> set t. keychar c)"
  by (auto simp: COMMIT_TYPES_def keychar_def lower_chr_def isupper_def)

lemma COMMIT_TYPES_distinct: "distinct (map fst COMMIT_TYPES)"
  by (simp add: COMMIT_TYPES_def)

lemma lookup_type_table:
  "(t, info) \<in> set COMMIT_TYPES \<Longrightarrow> lookup_type t = Inr info"
  by (simp add: lookup_type_def COMMIT_TYPES_distinct)

lemma conventional_loop_first:
  assumes "(t, info) \<in> set tbl"
    and "re_match True (pattern info) s \<noteq> None"
    and "\<forall>(t', info') \<in> set tbl. re_match True (pattern info') s \<noteq> None \<longrightarrow> t' = t"
  shows "conventional_loop s tbl =
     Some \<lparr>type = t, scope = extract_scope s, description = re_sub prefix_rx [] s, confidence = 0.95\<rparr>"
  using assms by (induction tbl) (auto split: if_splits)

lemma conventional_loop_None:
  "conventional_loop s tbl = None \<longleftrightarrow> (\<forall>(t, info) \<in> set tbl. re_match True (pattern info) s = None)"
proof (induction tbl)
  case Nil
  then show ?case by simp
next
  case (Cons x tbl)
  obtain t info where x: "x = (t, info)" by (cases x) auto
  show ?case using Cons x by (cases "re_match True (pattern info) s") auto
qed

lemma conventional_loop_Some:
  "conventional_loop s tbl = Some r \<Longrightarrow>
     \<exists>(t, info) \<in> set tbl. re_match True (pattern info) s \<noteq> None \<and>
       r = \<lparr>type = t, scope = extract_scope s, description = re_sub prefix_rx [] s, confidence = 0.95\<rparr>"
  by (induction tbl) (auto split: if_splits)

lemma conventional_table:
  assumes "(t, info) \<in> set COMMIT_TYPES" and "re_match True (pattern info) s \<noteq> None"
  shows "conventional_loop s COMMIT_TYPES =
     Some \<lparr>type = t, scope = extract_scope s, description = re_sub prefix_rx [] s, confidence = 0.95\<rparr>"
proof (rule conventional_loop_first[OF assms])
  show "\<forall>(t', info') \<in> set COMMIT_TYPES. re_match True (pattern info') s \<noteq> None \<longrightarrow> t' = t"
  proof (clarify)
    fix t' info' y assume a: "(t', info') \<in> set COMMIT_TYPES" "re_match True (pattern info') s = Some y"
    from COMMIT_TYPES_patterns[OF a(1)] a(2) have 1: "conv_match t' s" "\<forall>c \<in> set t'. keychar c"
      by (simp_all add: conv_match_def)
    from COMMIT_TYPES_patterns[OF assms(1)] assms(2) have 2: "conv_match t s" "\<forall>c \<in> set t. keychar c"
      by (simp_all add: conv_match_def)
    show "t' = t" using conv_match_unique[OF 1(1) 2(1) 1(2) 2(2)] .
  qed
qed

subsection \<open>The description of a conventional message\<close>

lemma sub_from_Bol_pos:
  "0 < p \<Longrightarrow> sub_from ic (Seq Bol r) repl p s = s"
proof (induction s arbitrary: p)
  case Nil
  then show ?case by (subst sub_from.simps) simp
next
  case (Cons c cs)
  then show ?case by (subst sub_from.simps) simp
qed

lemma concat_Eps [simp]: "concat (map (rx_run ic Eps) xs) = xs"
  by (induction xs) auto

lemma prefix_rx_run:
  assumes "pre \<noteq> []" and "CHR '':'' \<notin> set pre"
  shows "rx_run False prefix_rx (0, pre @ CHR '':'' # post, []) =
           star_run isspace (Suc (length pre), post, [])"
proof -
  from assms obtain c cs where pre: "pre = c # cs" "c \<noteq> CHR '':''" "CHR '':'' \<notin> set cs"
    by (cases pre) auto
  let ?P = "\<lambda>c. c \<noteq> CHR '':''"
  let ?f = "rx_run False (Seq (Lit CHR '':'') (Seq (Star isspace) Eps))"
  have f: "\<And>p' c cs g'. ?P c \<Longrightarrow> ?f (p', c # cs, g') = []" by simp
  have nc: "\<And>x. x \<in> set cs \<Longrightarrow> x \<noteq> CHR '':''" using pre(3) by auto
  have tw: "takeWhile ?P (cs @ CHR '':'' # post) = cs" "dropWhile ?P (cs @ CHR '':'' # post) = CHR '':'' # post"
    using takeWhile_append2[of cs ?P, OF nc] dropWhile_append2[of cs ?P, OF nc] by simp_all
  have "rx_run False prefix_rx (0, pre @ CHR '':'' # post, []) =
          concat (map ?f (star_run ?P (Suc 0, cs @ CHR '':'' # post, [])))"
    using pre by (simp add: prefix_rx_def cat_def)
  also have "\<dots> = ?f (Suc 0 + length (takeWhile ?P (cs @ CHR '':'' # post)),
      dropWhile ?P (cs @ CHR '':'' # post), [])"
    by (rule star_run_det) (rule f)
  also have "\<dots> = ?f (Suc 0 + length cs, CHR '':'' # post, [])"
    by (simp only: tw)
  also have "\<dots> = star_run isspace (Suc (length pre), post, [])"
    using pre by simp
  finally show ?thesis .
qed

lemma re_sub_prefix:
  assumes "pre \<noteq> []" and "CHR '':'' \<notin> set pre"
  shows "re_sub prefix_rx [] (pre @ CHR '':'' # post) = dropWhile isspace post"
proof -
  let ?s = "pre @ CHR '':'' # post"
  obtain rest where run: "rx_run False prefix_rx (0, ?s, []) =
      (Suc (length pre) + length (takeWhile isspace post), dropWhile isspace post, []) # rest"
    using prefix_rx_run[OF assms, of post] star_run_hd[of isspace "Suc (length pre)" post "[]"]
      star_run_nonempty[of isspace "(Suc (length pre), post, [])"]
    by (metis list.collapse)
  have len: "length (dropWhile isspace post) < Suc (length pre + length post)"
    using length_dropWhile_le[of isspace post] by simp
  have bol: "prefix_rx = Seq Bol (cat [Plus (\<lambda>c. c \<noteq> CHR '':''), Lit CHR '':'', Star isspace])"
    by (simp add: prefix_rx_def cat_def)
  have "re_sub prefix_rx [] ?s =
      sub_from False prefix_rx [] (Suc (length pre) + length (takeWhile isspace post)) (dropWhile isspace post)"
    unfolding re_sub_def by (subst sub_from.simps) (simp add: run len del: append.simps)
  also have "\<dots> = dropWhile isspace post"
    unfolding bol by (rule sub_from_Bol_pos) simp
  finally show ?thesis .
qed

lemma first_colon_split:
  assumes "CHR '':'' \<in> set s"
  shows "s = takeWhile (\<lambda>c. c \<noteq> CHR '':'') s @ CHR '':'' # tl (dropWhile (\<lambda>c. c \<noteq> CHR '':'') s)"
proof -
  let ?P = "\<lambda>c. c \<noteq> CHR '':''"
  have "dropWhile ?P s \<noteq> []" using assms by (simp add: dropWhile_eq_Nil_conv)
  moreover then have "hd (dropWhile ?P s) = CHR '':''" using hd_dropWhile[of ?P s] by simp
  ultimately have "dropWhile ?P s = CHR '':'' # tl (dropWhile ?P s)" by (metis list.collapse)
  then show ?thesis by (metis takeWhile_dropWhile_id)
qed

lemma conv_description:
  assumes m: "conv_match t s" and t: "t \<noteq> []" "keychar (hd t)"
  shows "re_sub prefix_rx [] s = dropWhile isspace (tl (dropWhile (\<lambda>c. c \<noteq> CHR '':'') s))"
    and "tl (dropWhile (\<lambda>c. c \<noteq> CHR '':'') s) \<noteq> []"
    and "last (tl (dropWhile (\<lambda>c. c \<noteq> CHR '':'') s)) = last s"
proof -
  define pre where "pre = takeWhile (\<lambda>c. c \<noteq> CHR '':'') s"
  define post where "post = tl (dropWhile (\<lambda>c. c \<noteq> CHR '':'') s)"
  from conv_match_colon[OF m] obtain w v where wv: "s = w @ CHR '':'' # v" "v \<noteq> []" by blast
  then have "CHR '':'' \<in> set s" by auto
  from first_colon_split[OF this] have s: "s = pre @ CHR '':'' # post"
    unfolding pre_def post_def .
  have hd: "s \<noteq> []" "hd s \<noteq> CHR '':''" using conv_match_hd[OF m t] by auto
  then have pre: "pre \<noteq> []" unfolding pre_def by (cases s) auto
  have notin: "CHR '':'' \<notin> set pre" unfolding pre_def using set_takeWhileD by fastforce
  have "re_sub prefix_rx [] (pre @ CHR '':'' # post) = dropWhile isspace post"
    by (rule re_sub_prefix[OF pre notin])
  then have "re_sub prefix_rx [] s = dropWhile isspace post" using s by simp
  then show "re_sub prefix_rx [] s = dropWhile isspace (tl (dropWhile (\<lambda>c. c \<noteq> CHR '':'') s))"
    unfolding post_def .
  have le: "length pre \<le> length w"
  proof (rule ccontr)
    assume "\<not> length pre \<le> length w"
    then have lt: "length w < length pre" by simp
    have "pre ! length w = (pre @ CHR '':'' # post) ! length w" using lt by (simp add: nth_append)
    also have "\<dots> = s ! length w" using s by simp
    also have "\<dots> = (w @ CHR '':'' # v) ! length w" using wv(1) by simp
    also have "\<dots> = CHR '':''" by simp
    finally have "CHR '':'' \<in> set pre" using lt nth_mem by metis
    with notin show False by simp
  qed
  have "length (pre @ CHR '':'' # post) = length (w @ CHR '':'' # v)" using s wv(1) by simp
  with le have "length v \<le> length post" by simp
  with wv(2) have post: "post \<noteq> []" by auto
  then show "tl (dropWhile (\<lambda>c. c \<noteq> CHR '':'') s) \<noteq> []" unfolding post_def .
  have "last (pre @ CHR '':'' # post) = last post" using post by simp
  then have "last s = last post" using s by simp
  then show "last (tl (dropWhile (\<lambda>c. c \<noteq> CHR '':'') s)) = last s" unfolding post_def by simp
qed

lemma conv_description_trimmed:
  assumes m: "conv_match t s" and t: "t \<noteq> []" "keychar (hd t)" and l: "\<not> isspace (last s)"
  shows "re_sub prefix_rx [] s \<noteq> []"
    and "\<not> isspace (hd (re_sub prefix_rx [] s))"
    and "\<not> isspace (last (re_sub prefix_rx [] s))"
proof -
  define post where "post = tl (dropWhile (\<lambda>c. c \<noteq> CHR '':'') s)"
  note d = conv_description[OF m t, folded post_def]
  have "last post \<in> set post" using d(2) by simp
  with l d(3) have ne: "dropWhile isspace post \<noteq> []"
    by (auto simp: dropWhile_eq_Nil_conv)
  then show "re_sub prefix_rx [] s \<noteq> []" using d(1) by simp
  show "\<not> isspace (hd (re_sub prefix_rx [] s))" using ne d(1) hd_dropWhile[of isspace post] by simp
  have "post = takeWhile isspace post @ dropWhile isspace post" by simp
  then have "last post = last (takeWhile isspace post @ dropWhile isspace post)" by simp
  also have "\<dots> = last (dropWhile isspace post)" by (rule last_appendR[OF ne])
  finally show "\<not> isspace (last (re_sub prefix_rx [] s))" using d(1) d(3) l by simp
qed

subsection \<open>The scope\<close>

lemma scope_rx_run_other:
  "c \<noteq> CHR ''('' \<Longrightarrow> rx_run False scope_rx (p, c # cs, []) = []"
  by (simp add: scope_rx_def cat_def)

lemma scope_rx_run_Nil: "rx_run False scope_rx (p, [], []) = []"
  by (simp add: scope_rx_def cat_def)

lemma scope_rx_run_paren:
  "rx_run False scope_rx (p, CHR ''('' # cs, []) =
     (if takeWhile (\<lambda>c. c \<noteq> CHR '')'') cs \<noteq> [] \<and> dropWhile (\<lambda>c. c \<noteq> CHR '')'') cs \<noteq> []
      then [(p + 2 + length (takeWhile (\<lambda>c. c \<noteq> CHR '')'') cs), tl (dropWhile (\<lambda>c. c \<noteq> CHR '')'') cs),
             [(1, takeWhile (\<lambda>c. c \<noteq> CHR '')'') cs)])]
      else [])"
proof (cases cs)
  case Nil
  then show ?thesis by (simp add: scope_rx_def cat_def)
next
  case (Cons d ds)
  let ?P = "\<lambda>c. c \<noteq> CHR '')''"
  let ?K = "rx_run False (Seq (Lit CHR '')'') Eps)"
  let ?cap = "\<lambda>(p', s', g'). (p', s', (1::nat, take (p' - Suc p) cs) # g')"
  show ?thesis
  proof (cases "?P d")
    case False
    then show ?thesis using Cons by (simp add: scope_rx_def cat_def)
  next
    case True
    have f: "\<And>p' c cs' g'. ?P c \<Longrightarrow> (?K \<circ> ?cap) (p', c # cs', g') = []" by simp
    have "rx_run False scope_rx (p, CHR ''('' # cs, []) =
        concat (map (?K \<circ> ?cap) (star_run ?P (Suc (Suc p), ds, [])))"
      using Cons True by (simp add: scope_rx_def cat_def)
    also have "\<dots> = (?K \<circ> ?cap) (Suc (Suc p) + length (takeWhile ?P ds), dropWhile ?P ds, [])"
      by (rule star_run_det) (rule f)
    also have "\<dots> = ?K (Suc (Suc p) + length (takeWhile ?P ds), dropWhile ?P ds,
        [(1, d # takeWhile ?P ds)])"
      using Cons by (simp add: takeWhile_eq_take[symmetric])
    finally have run: "rx_run False scope_rx (p, CHR ''('' # cs, []) =
        ?K (Suc (Suc p) + length (takeWhile ?P ds), dropWhile ?P ds, [(1, d # takeWhile ?P ds)])" .
    show ?thesis
    proof (cases "dropWhile ?P ds")
      case Nil
      have "rx_run False scope_rx (p, CHR ''('' # cs, []) = []"
        unfolding run Nil by simp
      then show ?thesis using Nil \<open>cs = d # ds\<close> True by simp
    next
      case (Cons e es)
      then have e: "e = CHR '')''" using hd_dropWhile[of ?P ds] by (metis list.discI list.sel(1))
      have "rx_run False scope_rx (p, CHR ''('' # cs, []) =
          [(Suc (Suc (Suc p)) + length (takeWhile ?P ds), es, [(1, d # takeWhile ?P ds)])]"
        unfolding run Cons e by simp
      moreover have "dropWhile ?P cs = e # es" "takeWhile ?P cs = d # takeWhile ?P ds"
        using Cons \<open>cs = d # ds\<close> True by simp_all
      ultimately show ?thesis by simp
    qed
  qed
qed

lemma search_from_scope:
  "map_option (\<lambda>st. group st 1) (search_from False scope_rx p s) = map_option Some (first_paren_group s)"
proof (induction s arbitrary: p)
  case Nil
  then show ?case by (simp add: scope_rx_run_Nil)
next
  case (Cons c cs)
  show ?case
  proof (cases "c = CHR ''(''")
    case False
    then show ?thesis using Cons by (simp add: scope_rx_run_other)
  next
    case True
    then show ?thesis using Cons by (simp add: scope_rx_run_paren group_def)
  qed
qed

lemma extract_scope_eq: "extract_scope s = first_paren_group s"
proof -
  have "(case re_search False scope_rx s of Some st \<Rightarrow> group st 1 | None \<Rightarrow> None) =
        (case map_option (\<lambda>st. group st 1) (re_search False scope_rx s) of Some x \<Rightarrow> x | None \<Rightarrow> None)"
    by (cases "re_search False scope_rx s") auto
  also have "\<dots> = first_paren_group s"
    unfolding re_search_def search_from_scope by (cases "first_paren_group s") auto
  finally show ?thesis by (simp add: extract_scope_def)
qed

lemma paren_group_here:
  assumes "cs = g @ CHR '')'' # post" and "CHR '')'' \<notin> set g"
  shows "takeWhile (\<lambda>c. c \<noteq> CHR '')'') cs = g" and "dropWhile (\<lambda>c. c \<noteq> CHR '')'') cs = CHR '')'' # post"
proof -
  have nc: "\<And>x. x \<in> set g \<Longrightarrow> x \<noteq> CHR '')''" using assms(2) by auto
  show "takeWhile (\<lambda>c. c \<noteq> CHR '')'') cs = g"
    using takeWhile_append2[of g "\<lambda>c. c \<noteq> CHR '')''", OF nc] assms(1) by simp
  show "dropWhile (\<lambda>c. c \<noteq> CHR '')'') cs = CHR '')'' # post"
    using dropWhile_append2[of g "\<lambda>c. c \<noteq> CHR '')''", OF nc] assms(1) by simp
qed

lemma paren_group_Nil_iff:
  "paren_group (c # cs) [] g post \<longleftrightarrow>
     c = CHR ''('' \<and> g = takeWhile (\<lambda>c. c \<noteq> CHR '')'') cs \<and> g \<noteq> [] \<and>
     dropWhile (\<lambda>c. c \<noteq> CHR '')'') cs = CHR '')'' # post"
proof
  assume "paren_group (c # cs) [] g post"
  then have 1: "c = CHR ''(''" "cs = g @ CHR '')'' # post" "g \<noteq> []" "CHR '')'' \<notin> set g"
    by (auto simp: paren_group_def)
  from paren_group_here[OF 1(2) 1(4)] 1 show "c = CHR ''('' \<and> g = takeWhile (\<lambda>c. c \<noteq> CHR '')'') cs \<and> g \<noteq> [] \<and>
     dropWhile (\<lambda>c. c \<noteq> CHR '')'') cs = CHR '')'' # post" by simp
next
  assume a: "c = CHR ''('' \<and> g = takeWhile (\<lambda>c. c \<noteq> CHR '')'') cs \<and> g \<noteq> [] \<and>
     dropWhile (\<lambda>c. c \<noteq> CHR '')'') cs = CHR '')'' # post"
  have "cs = takeWhile (\<lambda>c. c \<noteq> CHR '')'') cs @ dropWhile (\<lambda>c. c \<noteq> CHR '')'') cs" by simp
  with a have cs: "cs = g @ CHR '')'' # post" by simp
  have "CHR '')'' \<notin> set (takeWhile (\<lambda>c. c \<noteq> CHR '')'') cs)" using set_takeWhileD by fastforce
  with a have "CHR '')'' \<notin> set g" by simp
  with cs a show "paren_group (c # cs) [] g post" unfolding paren_group_def by blast
qed

lemma paren_group_Cons: "paren_group (c # cs) (c' # pre) g post \<longleftrightarrow> c' = c \<and> paren_group cs pre g post"
  by (auto simp: paren_group_def)

lemma first_paren_group_None:
  "first_paren_group s = None \<longleftrightarrow> \<not> (\<exists>pre g post. paren_group s pre g post)"
proof (induction s)
  case Nil
  then show ?case by (simp add: paren_group_def)
next
  case (Cons c cs)
  let ?P = "\<lambda>c. c \<noteq> CHR '')''"
  show ?case
  proof (cases "c = CHR ''('' \<and> takeWhile ?P cs \<noteq> [] \<and> dropWhile ?P cs \<noteq> []")
    case True
    then have "dropWhile ?P cs = CHR '')'' # tl (dropWhile ?P cs)"
      using hd_dropWhile[of ?P cs] by (metis list.collapse)
    then have "paren_group (c # cs) [] (takeWhile ?P cs) (tl (dropWhile ?P cs))"
      using True by (simp add: paren_group_Nil_iff)
    then show ?thesis using True by auto
  next
    case False
    have "(\<exists>pre g post. paren_group (c # cs) pre g post) \<longleftrightarrow> (\<exists>pre g post. paren_group cs pre g post)"
    proof
      assume "\<exists>pre g post. paren_group (c # cs) pre g post"
      then obtain pre g post where pg: "paren_group (c # cs) pre g post" by blast
      show "\<exists>pre g post. paren_group cs pre g post"
      proof (cases pre)
        case Nil
        then show ?thesis using pg False by (auto simp: paren_group_Nil_iff)
      next
        case (Cons c' pre')
        then show ?thesis using pg by (auto simp: paren_group_Cons)
      qed
    next
      assume "\<exists>pre g post. paren_group cs pre g post"
      then obtain pre g post where "paren_group cs pre g post" by blast
      then have "paren_group (c # cs) (c # pre) g post" by (simp add: paren_group_Cons)
      then show "\<exists>pre g post. paren_group (c # cs) pre g post" by blast
    qed
    then show ?thesis using False Cons by auto
  qed
qed

lemma first_paren_group_Some:
  "first_paren_group s = Some g \<Longrightarrow>
     \<exists>pre post. paren_group s pre g post \<and>
       (\<forall>pre' g' post'. paren_group s pre' g' post' \<longrightarrow> length pre \<le> length pre')"
proof (induction s)
  case Nil
  then show ?case by simp
next
  case (Cons c cs)
  let ?P = "\<lambda>c. c \<noteq> CHR '')''"
  show ?case
  proof (cases "c = CHR ''('' \<and> takeWhile ?P cs \<noteq> [] \<and> dropWhile ?P cs \<noteq> []")
    case True
    then have g: "g = takeWhile ?P cs" using Cons.prems by simp
    have "dropWhile ?P cs = CHR '')'' # tl (dropWhile ?P cs)"
      using True hd_dropWhile[of ?P cs] by (metis list.collapse)
    then have "paren_group (c # cs) [] g (tl (dropWhile ?P cs))"
      using True g by (simp add: paren_group_Nil_iff)
    then show ?thesis by force
  next
    case False
    then have "first_paren_group cs = Some g" using Cons.prems by auto
    from Cons.IH[OF this] obtain pre post where pg: "paren_group cs pre g post"
      and mn: "\<forall>pre' g' post'. paren_group cs pre' g' post' \<longrightarrow> length pre \<le> length pre'" by blast
    have 1: "paren_group (c # cs) (c # pre) g post" using pg by (simp add: paren_group_Cons)
    have 2: "length (c # pre) \<le> length pre'" if "paren_group (c # cs) pre' g' post'" for pre' g' post'
    proof (cases pre')
      case Nil
      then show ?thesis using that False by (auto simp: paren_group_Nil_iff)
    next
      case (Cons c' pre'')
      then have "paren_group cs pre'' g' post'" using that by (simp add: paren_group_Cons)
      then show ?thesis using mn Cons by auto
    qed
    from 1 2 show ?thesis by blast
  qed
qed

subsection \<open>The keyword loop\<close>

lemma kw_conf_capped: "kw_conf n = 0.6 + 0.1 * real (min 3 n)"
proof (cases "3 \<le> n")
  case True
  then have "(3::real) \<le> real n" by simp
  then show ?thesis using True by (simp add: kw_conf_def min_def)
next
  case False
  then have "real n \<le> 3" by simp
  then show ?thesis using False by (simp add: kw_conf_def min_def)
qed

lemma kw_conf_bounds: "0 < n \<Longrightarrow> 0.7 \<le> kw_conf n \<and> kw_conf n \<le> 0.9"
proof -
  assume "0 < n"
  then have "1 \<le> min 3 n" "min 3 n \<le> 3" by auto
  then have "1 \<le> real (min 3 n)" "real (min 3 n) \<le> 3"
    by (metis of_nat_1 of_nat_le_iff, metis of_nat_le_iff of_nat_numeral)
  then show ?thesis unfolding kw_conf_capped by simp
qed

lemma kw_conf_less: "kw_conf a < kw_conf b \<longleftrightarrow> min 3 a < min 3 b"
  unfolding kw_conf_capped by simp

lemma kw_conf_le: "kw_conf a \<le> kw_conf b \<longleftrightarrow> min 3 a \<le> min 3 b"
  unfolding kw_conf_capped by simp

lemma kw_score_nonneg: "0 \<le> kw_score low x"
  using kw_conf_bounds[of "keyword_matches (keywords (snd x)) low"] by (auto simp: kw_score_def)

lemma calculate_confidence_fallback:
  assumes "(t, info) \<in> set COMMIT_TYPES" and "re_match True (pattern info) s = None"
  shows "calculate_confidence s t =
     Inr (if keyword_matches (keywords info) (lower s) > 0
          then kw_conf (keyword_matches (keywords info) (lower s)) else 0.5)"
  using assms by (simp add: calculate_confidence_def lookup_type_table kw_conf_def Let_def)

lemma keyword_loop_best:
  assumes "set tbl \<subseteq> set COMMIT_TYPES"
    and "\<forall>(t, info) \<in> set tbl. re_match True (pattern info) s = None"
    and "0 \<le> bc"
  shows "keyword_loop s (lower s) tbl (bm, bc) = Inr (best_of (kw_score (lower s)) tbl (bm, bc))"
  using assms
proof (induction tbl arbitrary: bm bc)
  case Nil
  then show ?case by simp
next
  case (Cons x tbl)
  obtain t info where x: "x = (t, info)" by (cases x) auto
  have tin: "(t, info) \<in> set COMMIT_TYPES" and nm: "re_match True (pattern info) s = None"
    using Cons.prems x by auto
  have rest: "set tbl \<subseteq> set COMMIT_TYPES" "\<forall>(t, info) \<in> set tbl. re_match True (pattern info) s = None"
    using Cons.prems by auto
  note cc = calculate_confidence_fallback[OF tin nm]
  show ?case
  proof (cases "keyword_matches (keywords info) (lower s) > 0")
    case True
    then have sc: "kw_score (lower s) x = kw_conf (keyword_matches (keywords info) (lower s))"
      by (simp add: kw_score_def x)
    have nn: "0 \<le> kw_score (lower s) x" by (rule kw_score_nonneg)
    show ?thesis
      using True cc sc nn Cons.IH[OF rest] Cons.prems(3) by (simp add: x)
  next
    case False
    then have sc: "kw_score (lower s) x = 0" by (simp add: kw_score_def x)
    show ?thesis
      using False sc Cons.IH[OF rest Cons.prems(3)] Cons.prems(3) by (simp add: x)
  qed
qed

lemma best_of_cases:
  "best_of sc xs (bm, bc) = (bm', bc') \<Longrightarrow>
     (bm' = bm \<and> bc' = bc \<and> (\<forall>x \<in> set xs. sc x \<le> bc)) \<or>
     (\<exists>ys x zs. xs = ys @ x # zs \<and> bm' = fst x \<and> bc' = sc x \<and> bc < bc' \<and>
        (\<forall>y \<in> set ys. sc y < bc') \<and> (\<forall>z \<in> set zs. sc z \<le> bc'))"
proof (induction xs arbitrary: bm bc)
  case Nil
  then show ?case by simp
next
  case (Cons x xs)
  show ?case
  proof (cases "sc x > bc")
    case True
    with Cons.prems have "best_of sc xs (fst x, sc x) = (bm', bc')" by simp
    from Cons.IH[OF this] show ?thesis
    proof
      assume a: "bm' = fst x \<and> bc' = sc x \<and> (\<forall>y \<in> set xs. sc y \<le> sc x)"
      then have "x # xs = [] @ x # xs \<and> bm' = fst x \<and> bc' = sc x \<and> bc < bc' \<and>
        (\<forall>y \<in> set []. sc y < bc') \<and> (\<forall>z \<in> set xs. sc z \<le> bc')" using True by simp
      then show ?thesis by blast
    next
      assume "\<exists>ys y zs. xs = ys @ y # zs \<and> bm' = fst y \<and> bc' = sc y \<and> sc x < bc' \<and>
        (\<forall>y \<in> set ys. sc y < bc') \<and> (\<forall>z \<in> set zs. sc z \<le> bc')"
      then obtain ys y zs where a: "xs = ys @ y # zs" "bm' = fst y" "bc' = sc y" "sc x < bc'"
        "\<forall>y \<in> set ys. sc y < bc'" "\<forall>z \<in> set zs. sc z \<le> bc'" by blast
      then have "x # xs = (x # ys) @ y # zs \<and> bm' = fst y \<and> bc' = sc y \<and> bc < bc' \<and>
        (\<forall>y \<in> set (x # ys). sc y < bc') \<and> (\<forall>z \<in> set zs. sc z \<le> bc')" using True by simp
      then show ?thesis by blast
    qed
  next
    case False
    with Cons.prems have "best_of sc xs (bm, bc) = (bm', bc')" by simp
    from Cons.IH[OF this] show ?thesis
    proof
      assume "bm' = bm \<and> bc' = bc \<and> (\<forall>x \<in> set xs. sc x \<le> bc)"
      then show ?thesis using False by simp
    next
      assume "\<exists>ys y zs. xs = ys @ y # zs \<and> bm' = fst y \<and> bc' = sc y \<and> bc < bc' \<and>
        (\<forall>y \<in> set ys. sc y < bc') \<and> (\<forall>z \<in> set zs. sc z \<le> bc')"
      then obtain ys y zs where a: "xs = ys @ y # zs" "bm' = fst y" "bc' = sc y" "bc < bc'"
        "\<forall>y \<in> set ys. sc y < bc'" "\<forall>z \<in> set zs. sc z \<le> bc'" by blast
      then have "x # xs = (x # ys) @ y # zs \<and> bm' = fst y \<and> bc' = sc y \<and> bc < bc' \<and>
        (\<forall>y \<in> set (x # ys). sc y < bc') \<and> (\<forall>z \<in> set zs. sc z \<le> bc')" using False by simp
      then show ?thesis by blast
    qed
  qed
qed

subsection \<open>The two outcomes of the classifier\<close>

lemma classify_conventional:
  assumes "strip m \<noteq> []" and "(t, info) \<in> set COMMIT_TYPES"
    and "re_match True (pattern info) (strip m) \<noteq> None"
  shows "classify_commit m = Inr (conventional_result t (strip m))"
  using assms(1) conventional_table[OF assms(2,3)]
  by (simp add: classify_commit_def conventional_result_def Let_def)

lemma classify_fallback:
  assumes "strip m \<noteq> []" and "conventional_loop (strip m) COMMIT_TYPES = None"
  shows "classify_commit m = Inr (fallback_result (strip m))"
proof -
  have nm: "\<forall>(t, info) \<in> set COMMIT_TYPES. re_match True (pattern info) (strip m) = None"
    using assms(2) by (simp add: conventional_loop_None)
  have "keyword_loop (strip m) (lower (strip m)) COMMIT_TYPES (''chore'', 0) =
      Inr (best_of (kw_score (lower (strip m))) COMMIT_TYPES (''chore'', 0))"
    by (rule keyword_loop_best[OF subset_refl nm]) simp
  then show ?thesis using assms
    by (simp add: classify_commit_def fallback_result_def Let_def split: prod.splits)
qed

lemma classify_cases:
  assumes "strip m \<noteq> []"
  shows "(\<exists>(t, info) \<in> set COMMIT_TYPES. re_match True (pattern info) (strip m) \<noteq> None \<and>
            classify_commit m = Inr (conventional_result t (strip m)))
       \<or> (conventional_loop (strip m) COMMIT_TYPES = None \<and>
            classify_commit m = Inr (fallback_result (strip m)))"
proof (cases "conventional_loop (strip m) COMMIT_TYPES")
  case None
  then show ?thesis using classify_fallback[OF assms] by simp
next
  case (Some r)
  from conventional_loop_Some[OF this] obtain t info where
    "(t, info) \<in> set COMMIT_TYPES" "re_match True (pattern info) (strip m) \<noteq> None" by auto
  then show ?thesis using classify_conventional[OF assms] by blast
qed

lemma chore_key: "''chore'' \<in> fst ` set COMMIT_TYPES"
  by (simp add: COMMIT_TYPES_def)

lemma fallback_result_cases:
  "(type (fallback_result s) = ''chore'' \<and> confidence (fallback_result s) = 0.5 \<and>
      (\<forall>x \<in> set COMMIT_TYPES. keyword_matches (keywords (snd x)) (lower s) = 0))
   \<or> (\<exists>ys x zs. COMMIT_TYPES = ys @ x # zs \<and> type (fallback_result s) = fst x \<and>
        0 < keyword_matches (keywords (snd x)) (lower s) \<and>
        confidence (fallback_result s) = kw_conf (keyword_matches (keywords (snd x)) (lower s)) \<and>
        (\<forall>y \<in> set ys. kw_score (lower s) y < kw_score (lower s) x) \<and>
        (\<forall>z \<in> set zs. kw_score (lower s) z \<le> kw_score (lower s) x))"
proof -
  obtain bm bc where b: "best_of (kw_score (lower s)) COMMIT_TYPES (''chore'', 0) = (bm, bc)"
    by (cases "best_of (kw_score (lower s)) COMMIT_TYPES (''chore'', 0)") auto
  then have r: "type (fallback_result s) = bm" "confidence (fallback_result s) = max bc 0.5"
    by (simp_all add: fallback_result_def)
  from best_of_cases[OF b] show ?thesis
  proof
    assume a: "bm = ''chore'' \<and> bc = 0 \<and> (\<forall>x \<in> set COMMIT_TYPES. kw_score (lower s) x \<le> 0)"
    have "keyword_matches (keywords (snd x)) (lower s) = 0" if "x \<in> set COMMIT_TYPES" for x
    proof (rule ccontr)
      assume "keyword_matches (keywords (snd x)) (lower s) \<noteq> 0"
      then have p: "0 < keyword_matches (keywords (snd x)) (lower s)" by simp
      then have "kw_score (lower s) x = kw_conf (keyword_matches (keywords (snd x)) (lower s))"
        by (simp add: kw_score_def)
      with kw_conf_bounds[OF p] a that show False by force
    qed
    with a r show ?thesis by simp
  next
    assume "\<exists>ys x zs. COMMIT_TYPES = ys @ x # zs \<and> bm = fst x \<and> bc = kw_score (lower s) x \<and> 0 < bc \<and>
        (\<forall>y \<in> set ys. kw_score (lower s) y < bc) \<and> (\<forall>z \<in> set zs. kw_score (lower s) z \<le> bc)"
    then obtain ys x zs where a: "COMMIT_TYPES = ys @ x # zs" "bm = fst x" "bc = kw_score (lower s) x"
      "0 < bc" "\<forall>y \<in> set ys. kw_score (lower s) y < bc" "\<forall>z \<in> set zs. kw_score (lower s) z \<le> bc"
      by blast
    have p: "0 < keyword_matches (keywords (snd x)) (lower s)"
      using a(3,4) by (auto simp: kw_score_def split: if_splits)
    then have sc: "bc = kw_conf (keyword_matches (keywords (snd x)) (lower s))"
      using a(3) by (simp add: kw_score_def)
    with kw_conf_bounds[OF p] have mx: "max bc 0.5 = bc" by simp
    have "COMMIT_TYPES = ys @ x # zs \<and> type (fallback_result s) = fst x \<and>
        0 < keyword_matches (keywords (snd x)) (lower s) \<and>
        confidence (fallback_result s) = kw_conf (keyword_matches (keywords (snd x)) (lower s)) \<and>
        (\<forall>y \<in> set ys. kw_score (lower s) y < kw_score (lower s) x) \<and>
        (\<forall>z \<in> set zs. kw_score (lower s) z \<le> kw_score (lower s) x)"
      using a p sc r mx by simp
    then show ?thesis by blast
  qed
qed

lemma fallback_result_key: "type (fallback_result s) \<in> fst ` set COMMIT_TYPES"
  using fallback_result_cases[of s]
proof
  assume "type (fallback_result s) = ''chore'' \<and> confidence (fallback_result s) = 0.5 \<and>
      (\<forall>x \<in> set COMMIT_TYPES. keyword_matches (keywords (snd x)) (lower s) = 0)"
  then show ?thesis using chore_key by simp
next
  assume "\<exists>ys x zs. COMMIT_TYPES = ys @ x # zs \<and> type (fallback_result s) = fst x \<and>
        0 < keyword_matches (keywords (snd x)) (lower s) \<and>
        confidence (fallback_result s) = kw_conf (keyword_matches (keywords (snd x)) (lower s)) \<and>
        (\<forall>y \<in> set ys. kw_score (lower s) y < kw_score (lower s) x) \<and>
        (\<forall>z \<in> set zs. kw_score (lower s) z \<le> kw_score (lower s) x)"
  then obtain ys x zs where d: "COMMIT_TYPES = ys @ x # zs" and t: "type (fallback_result s) = fst x"
    by blast
  have "x \<in> set (ys @ x # zs)" by simp
  then have "x \<in> set COMMIT_TYPES" unfolding d[symmetric] .
  with t show ?thesis by blast
qed

lemma fallback_result_confidence:
  "0.5 \<le> confidence (fallback_result s) \<and> confidence (fallback_result s) \<le> 0.9"
  using fallback_result_cases[of s]
proof
  assume "type (fallback_result s) = ''chore'' \<and> confidence (fallback_result s) = 0.5 \<and>
      (\<forall>x \<in> set COMMIT_TYPES. keyword_matches (keywords (snd x)) (lower s) = 0)"
  then show ?thesis by simp
next
  assume "\<exists>ys x zs. COMMIT_TYPES = ys @ x # zs \<and> type (fallback_result s) = fst x \<and>
        0 < keyword_matches (keywords (snd x)) (lower s) \<and>
        confidence (fallback_result s) = kw_conf (keyword_matches (keywords (snd x)) (lower s)) \<and>
        (\<forall>y \<in> set ys. kw_score (lower s) y < kw_score (lower s) x) \<and>
        (\<forall>z \<in> set zs. kw_score (lower s) z \<le> kw_score (lower s) x)"
  then obtain x :: "string \<times> commit_type_info"
    where p: "0 < keyword_matches (keywords (snd x)) (lower s)"
    and c: "confidence (fallback_result s) = kw_conf (keyword_matches (keywords (snd x)) (lower s))"
    by blast
  from kw_conf_bounds[OF p] c show ?thesis by simp
qed

subsection \<open>The first word of a description\<close>

lemma split_aux_nonempty: "w \<noteq> [] \<Longrightarrow> split_aux w cs \<noteq> []"
  by (induction cs arbitrary: w) auto

lemma split_nonempty: "s \<noteq> [] \<Longrightarrow> \<not> isspace (hd s) \<Longrightarrow> split s \<noteq> []"
  by (cases s) (auto simp: split_def split_aux_nonempty)

lemma first_word_of_ok:
  "s \<noteq> [] \<Longrightarrow> \<not> isspace (hd s) \<Longrightarrow> \<exists>w. first_word_of s = Inr w"
  using split_nonempty[of s] by (cases "split s") (auto simp: first_word_of_def)

subsection \<open>Properties of every classification\<close>

lemma dropWhile_hd_id: "xs \<noteq> [] \<Longrightarrow> \<not> P (hd xs) \<Longrightarrow> dropWhile P xs = xs"
  by (cases xs) auto

lemma strip_fixed:
  assumes "s \<noteq> []" and "\<not> isspace (hd s)" and "\<not> isspace (last s)"
  shows "strip s = s"
proof -
  have 1: "dropWhile isspace s = s" using assms(1,2) by (rule dropWhile_hd_id)
  have "rev s \<noteq> []" "\<not> isspace (hd (rev s))" using assms(1,3) by (simp_all add: hd_rev)
  then have 2: "dropWhile isspace (rev s) = rev s" by (rule dropWhile_hd_id)
  show ?thesis by (simp add: strip_def 1 2)
qed

lemma classify_Inr_nonempty: "classify_commit m = Inr r \<Longrightarrow> strip m \<noteq> []"
  by (auto simp: classify_commit_def Let_def split: if_splits)

lemma classify_empty: "strip m = [] \<Longrightarrow> classify_commit m = Inl (HTTPException 400 ''Empty commit message'')"
  by (simp add: classify_commit_def)

lemma conventional_result_props:
  assumes "(t, info) \<in> set COMMIT_TYPES" and "re_match True (pattern info) s \<noteq> None"
    and "s \<noteq> []" and "\<not> isspace (last s)"
  shows "description (conventional_result t s) = dropWhile isspace (tl (dropWhile (\<lambda>c. c \<noteq> CHR '':'') s))"
    and "description (conventional_result t s) \<noteq> []"
    and "\<not> isspace (hd (description (conventional_result t s)))"
    and "\<not> isspace (last (description (conventional_result t s)))"
proof -
  from COMMIT_TYPES_patterns[OF assms(1)] have p: "pattern info = conv_pattern t" "t \<noteq> []" "\<forall>c \<in> set t. keychar c"
    by simp_all
  then have m: "conv_match t s" using assms(2) by (simp add: conv_match_def)
  have k: "keychar (hd t)" using p(2,3) by simp
  show "description (conventional_result t s) = dropWhile isspace (tl (dropWhile (\<lambda>c. c \<noteq> CHR '':'') s))"
    using conv_description(1)[OF m p(2) k] by (simp add: conventional_result_def)
  show "description (conventional_result t s) \<noteq> []"
    using conv_description_trimmed(1)[OF m p(2) k assms(4)] by (simp add: conventional_result_def)
  show "\<not> isspace (hd (description (conventional_result t s)))"
    using conv_description_trimmed(2)[OF m p(2) k assms(4)] by (simp add: conventional_result_def)
  show "\<not> isspace (last (description (conventional_result t s)))"
    using conv_description_trimmed(3)[OF m p(2) k assms(4)] by (simp add: conventional_result_def)
qed

lemma classify_result_props:
  assumes "strip m \<noteq> []"
  shows "\<exists>r. classify_commit m = Inr r \<and> type r \<in> fst ` set COMMIT_TYPES \<and>
           0.5 \<le> confidence r \<and> confidence r \<le> 0.95 \<and>
           description r \<noteq> [] \<and> \<not> isspace (hd (description r)) \<and> \<not> isspace (last (description r))"
  using classify_cases[OF assms]
proof
  assume "\<exists>(t, info) \<in> set COMMIT_TYPES. re_match True (pattern info) (strip m) \<noteq> None \<and>
            classify_commit m = Inr (conventional_result t (strip m))"
  then obtain t info where a: "(t, info) \<in> set COMMIT_TYPES" "re_match True (pattern info) (strip m) \<noteq> None"
    "classify_commit m = Inr (conventional_result t (strip m))" by auto
  note d = conventional_result_props[OF a(1,2) assms strip_last[OF assms]]
  have "type (conventional_result t (strip m)) \<in> fst ` set COMMIT_TYPES"
    using a(1) by (force simp: conventional_result_def)
  moreover have "confidence (conventional_result t (strip m)) = 0.95"
    by (simp add: conventional_result_def)
  ultimately show ?thesis using a(3) d(2,3,4) by simp
next
  assume a: "conventional_loop (strip m) COMMIT_TYPES = None \<and>
            classify_commit m = Inr (fallback_result (strip m))"
  have d: "description (fallback_result (strip m)) = strip m" by (simp add: fallback_result_def Let_def)
  from fallback_result_confidence[of "strip m"]
  have "0.5 \<le> confidence (fallback_result (strip m))" "confidence (fallback_result (strip m)) \<le> 0.95"
    by simp_all
  then show ?thesis
    using a d fallback_result_key[of "strip m"] assms strip_hd[OF assms] strip_last[OF assms] by simp
qed

lemma generate_suggestions_ok:
  assumes "type c \<in> fst ` set COMMIT_TYPES" and "description c \<noteq> []" and "\<not> isspace (hd (description c))"
  shows "\<exists>sugg. generate_suggestions msg c = Inr sugg"
proof -
  from assms(1) obtain info where "(type c, info) \<in> set COMMIT_TYPES" by force
  then have l: "lookup_type (type c) = Inr info" by (rule lookup_type_table)
  from first_word_of_ok[OF assms(2,3)] obtain w where w: "first_word_of (description c) = Inr w" by blast
  show ?thesis by (simp add: generate_suggestions_def Let_def l w)
qed

lemma generate_suggestions_lengths:
  assumes "generate_suggestions msg c = Inr sugg"
  shows "(''Commit message is too short. Add more details.'' \<in> set sugg \<longleftrightarrow> length msg < 10)"
    and "(''Commit message is long. Consider keeping summary under 72 characters.'' \<in> set sugg
           \<longleftrightarrow> 100 < length msg)"
  using assms
  by (auto simp: generate_suggestions_def Let_def split: sum.splits if_splits)

subsection \<open>The batch\<close>

lemma batch_loop_length: "length (batch_loop clock k msgs) = length msgs"
  by (induction msgs arbitrary: k) (auto split: sum.splits)

lemma batch_loop_messages: "map item_message (batch_loop clock k msgs) = msgs"
  by (induction msgs arbitrary: k) (auto split: sum.splits)

lemma batch_loop_nth:
  "i < length msgs \<Longrightarrow> \<exists>j. batch_loop clock k msgs ! i = item_outcome (clock j) (msgs ! i)"
proof (induction msgs arbitrary: k i)
  case Nil
  then show ?case by simp
next
  case (Cons msg msgs)
  show ?case
  proof (cases i)
    case 0
    then show ?thesis by (auto simp: item_outcome_def split: sum.splits)
  next
    case (Suc i')
    then have "i' < length msgs" using Cons.prems by simp
    from Cons.IH[OF this] show ?thesis using Suc by (auto split: sum.splits)
  qed
qed

lemma str_error_empty: "str_error (HTTPException 400 ''Empty commit message'') = ''400: Empty commit message''"
  by code_simp

lemma item_outcome_empty:
  "strip msg = [] \<Longrightarrow> item_outcome ts msg = Failed msg ''400: Empty commit message''"
  by (simp add: item_outcome_def classify_empty str_error_empty del: str_error.simps)

subsection \<open>Comparing types by their keywords\<close>

lemma kw_score_less:
  assumes "0 < keyword_matches (keywords (snd x)) low"
  shows "kw_score low y < kw_score low x \<longleftrightarrow>
     min 3 (keyword_matches (keywords (snd y)) low) < min 3 (keyword_matches (keywords (snd x)) low)"
proof (cases "0 < keyword_matches (keywords (snd y)) low")
  case True
  then show ?thesis using assms by (simp add: kw_score_def kw_conf_less)
next
  case False
  then show ?thesis using assms kw_conf_bounds[OF assms] by (simp add: kw_score_def)
qed

lemma kw_score_le:
  assumes "0 < keyword_matches (keywords (snd x)) low"
  shows "kw_score low y \<le> kw_score low x \<longleftrightarrow>
     min 3 (keyword_matches (keywords (snd y)) low) \<le> min 3 (keyword_matches (keywords (snd x)) low)"
proof (cases "0 < keyword_matches (keywords (snd y)) low")
  case True
  then show ?thesis using assms by (simp add: kw_score_def kw_conf_le)
next
  case False
  then show ?thesis using assms kw_conf_bounds[OF assms] by (simp add: kw_score_def)
qed

section \<open>Properties\<close>

text \<open>
  C1. A message whose trimmed form matches the pattern of a commit type of the table
  (case-insensitively) is classified as that type with confidence 0.95, and its
  description is the trimmed message without everything up to and including its first
  colon and the whitespace that follows. The pattern is matched against the trimmed
  message, not against the input as given.
\<close>

theorem C1_conventional_match:
  assumes "strip m \<noteq> []"
    and "(t, info) \<in> set COMMIT_TYPES"
    and "re_match True (pattern info) (strip m) \<noteq> None"
  shows "pattern info = conv_pattern t \<and>
    (\<exists>r. classify_commit m = Inr r \<and> type r = t \<and> confidence r = 0.95 \<and>
       description r = dropWhile isspace (tl (dropWhile (\<lambda>c. c \<noteq> CHR '':'') (strip m))))"
proof -
  have "classify_commit m = Inr (conventional_result t (strip m))"
    by (rule classify_conventional[OF assms])
  moreover have "type (conventional_result t (strip m)) = t"
    "confidence (conventional_result t (strip m)) = 0.95"
    by (simp_all add: conventional_result_def)
  moreover have "description (conventional_result t (strip m)) =
      dropWhile isspace (tl (dropWhile (\<lambda>c. c \<noteq> CHR '':'') (strip m)))"
    by (rule conventional_result_props(1)[OF assms(2,3,1) strip_last[OF assms(1)]])
  ultimately show ?thesis using COMMIT_TYPES_patterns[OF assms(2)] by simp
qed

theorem C1_conventional_match_witness:
  "\<exists>r. classify_commit ''  Fix(api): resolve CORS issue '' = Inr r \<and> type r = ''fix'' \<and>
     confidence r = 0.95 \<and> description r = ''resolve CORS issue''"
proof -
  have h1: "strip ''  Fix(api): resolve CORS issue '' \<noteq> []" by code_simp
  have h2: "(''fix'', snd (COMMIT_TYPES ! 1)) \<in> set COMMIT_TYPES" by (simp add: COMMIT_TYPES_def)
  have h3: "re_match True (pattern (snd (COMMIT_TYPES ! 1))) (strip ''  Fix(api): resolve CORS issue '') \<noteq> None"
    by code_simp
  have d: "dropWhile isspace (tl (dropWhile (\<lambda>c. c \<noteq> CHR '':'') (strip ''  Fix(api): resolve CORS issue '')))
      = ''resolve CORS issue''" by code_simp
  from C1_conventional_match[OF h1 h2 h3] show ?thesis unfolding d by simp
qed

text \<open>
  The input \<open>feat:\<close> followed by three spaces is not empty after trimming and matches the
  pattern of \<open>feat\<close> as given (the dot matches a space), but its trimmed form \<open>feat:\<close> does
  not, and the message is classified as \<open>chore\<close> with confidence 0.5.
\<close>

theorem C1_untrimmed_match_counterexample:
  "strip ''feat:   '' \<noteq> [] \<and>
   re_match True (conv_pattern ''feat'') ''feat:   '' \<noteq> None \<and>
   classify_commit ''feat:   '' =
     Inr \<lparr>type = ''chore'', scope = None, description = ''feat:'', confidence = 0.5\<rparr>"
  by code_simp

text \<open>
  C2. When no pattern matches the trimmed message, the type returned is \<open>chore\<close> if no
  type has a keyword in the message; otherwise it is the earliest type of the table, among
  those with a keyword in the message, whose confidence is highest. The confidence
  \<open>min (0.6 + 0.1 n) 0.9\<close> grows with the number \<open>n\<close> of keywords found only up to three:
  the types are compared by \<open>min 3 n\<close>.
\<close>

theorem C2_fallback_choice:
  assumes "strip m \<noteq> []"
    and "\<forall>(t, info) \<in> set COMMIT_TYPES. re_match True (pattern info) (strip m) = None"
  shows "\<exists>r. classify_commit m = Inr r \<and>
    ((\<forall>x \<in> set COMMIT_TYPES. keyword_matches (keywords (snd x)) (lower (strip m)) = 0) \<and>
        type r = ''chore'' \<and> confidence r = 0.5
     \<or> (\<exists>before x after. COMMIT_TYPES = before @ x # after \<and> type r = fst x \<and>
          0 < keyword_matches (keywords (snd x)) (lower (strip m)) \<and>
          confidence r = min (0.6 + (real (keyword_matches (keywords (snd x)) (lower (strip m))) * 0.1)) 0.9 \<and>
          (\<forall>y \<in> set before. min 3 (keyword_matches (keywords (snd y)) (lower (strip m)))
               < min 3 (keyword_matches (keywords (snd x)) (lower (strip m)))) \<and>
          (\<forall>z \<in> set after. min 3 (keyword_matches (keywords (snd z)) (lower (strip m)))
               \<le> min 3 (keyword_matches (keywords (snd x)) (lower (strip m))))))"
proof -
  let ?s = "strip m"
  have c: "classify_commit m = Inr (fallback_result ?s)"
    using classify_fallback[OF assms(1)] assms(2) by (simp add: conventional_loop_None)
  from fallback_result_cases[of ?s] show ?thesis
  proof
    assume "type (fallback_result ?s) = ''chore'' \<and> confidence (fallback_result ?s) = 0.5 \<and>
      (\<forall>x \<in> set COMMIT_TYPES. keyword_matches (keywords (snd x)) (lower ?s) = 0)"
    then show ?thesis using c by simp
  next
    assume "\<exists>ys x zs. COMMIT_TYPES = ys @ x # zs \<and> type (fallback_result ?s) = fst x \<and>
        0 < keyword_matches (keywords (snd x)) (lower ?s) \<and>
        confidence (fallback_result ?s) = kw_conf (keyword_matches (keywords (snd x)) (lower ?s)) \<and>
        (\<forall>y \<in> set ys. kw_score (lower ?s) y < kw_score (lower ?s) x) \<and>
        (\<forall>z \<in> set zs. kw_score (lower ?s) z \<le> kw_score (lower ?s) x)"
    then obtain ys x zs where a: "COMMIT_TYPES = ys @ x # zs" "type (fallback_result ?s) = fst x"
        "0 < keyword_matches (keywords (snd x)) (lower ?s)"
        "confidence (fallback_result ?s) = kw_conf (keyword_matches (keywords (snd x)) (lower ?s))"
        "\<forall>y \<in> set ys. kw_score (lower ?s) y < kw_score (lower ?s) x"
        "\<forall>z \<in> set zs. kw_score (lower ?s) z \<le> kw_score (lower ?s) x" by blast
    have "COMMIT_TYPES = ys @ x # zs \<and> type (fallback_result ?s) = fst x \<and>
          0 < keyword_matches (keywords (snd x)) (lower ?s) \<and>
          confidence (fallback_result ?s) = min (0.6 + (real (keyword_matches (keywords (snd x)) (lower ?s)) * 0.1)) 0.9 \<and>
          (\<forall>y \<in> set ys. min 3 (keyword_matches (keywords (snd y)) (lower ?s))
               < min 3 (keyword_matches (keywords (snd x)) (lower ?s))) \<and>
          (\<forall>z \<in> set zs. min 3 (keyword_matches (keywords (snd z)) (lower ?s))
               \<le> min 3 (keyword_matches (keywords (snd x)) (lower ?s)))"
      using a kw_score_less[OF a(3)] kw_score_le[OF a(3)] by (simp add: kw_conf_def)
    then show ?thesis using c by blast
  qed
qed

theorem C2_fallback_choice_witness:
  "\<exists>r. classify_commit ''added new feature'' = Inr r \<and> type r = ''feat'' \<and> confidence r = 0.8"
proof -
  have h1: "strip ''added new feature'' \<noteq> []" by code_simp
  have h2: "\<forall>(t, info) \<in> set COMMIT_TYPES. re_match True (pattern info) (strip ''added new feature'') = None"
    by code_simp
  have v: "classify_commit ''added new feature'' =
      Inr \<lparr>type = ''feat'', scope = None, description = ''added new feature'', confidence = 0.8\<rparr>"
    by code_simp
  from C2_fallback_choice[OF h1 h2] obtain r where "classify_commit ''added new feature'' = Inr r"
    by blast
  with v show ?thesis by simp
qed

text \<open>
  In \<open>add new implement fix bug resolve correct\<close> no pattern matches; \<open>feat\<close> has three
  keywords and \<open>fix\<close> has four, both have confidence 0.9, and \<open>feat\<close>, the earlier one, is
  returned although its number of keywords is not the highest.
\<close>

theorem C2_highest_count_counterexample:
  "strip ''add new implement fix bug resolve correct'' \<noteq> [] \<and>
   conventional_loop (strip ''add new implement fix bug resolve correct'') COMMIT_TYPES = None \<and>
   map (\<lambda>x. (fst x, keyword_matches (keywords (snd x))
          (lower (strip ''add new implement fix bug resolve correct'')))) COMMIT_TYPES =
     [(''feat'', 3), (''fix'', 4), (''docs'', 0), (''style'', 0), (''refactor'', 0), (''perf'', 0),
      (''test'', 0), (''build'', 0), (''ci'', 0), (''chore'', 0), (''revert'', 0)] \<and>
   classify_commit ''add new implement fix bug resolve correct'' =
     Inr \<lparr>type = ''feat'', scope = None,
          description = ''add new implement fix bug resolve correct'', confidence = 0.9\<rparr>"
  by code_simp

text \<open>
  C3. A message that is not empty after trimming has exactly one classification; its type
  is one of the eleven keys of the table and its confidence lies between 0.5 and 0.95.
\<close>

theorem C3_result_invariant:
  assumes "strip m \<noteq> []"
  shows "(\<exists>!r. classify_commit m = Inr r) \<and>
    (\<exists>r. classify_commit m = Inr r \<and>
       type r \<in> set [''feat'', ''fix'', ''docs'', ''style'', ''refactor'', ''perf'', ''test'',
                      ''build'', ''ci'', ''chore'', ''revert''] \<and>
       type r \<in> fst ` set COMMIT_TYPES \<and>
       0.5 \<le> confidence r \<and> confidence r \<le> 0.95)"
proof -
  have keys: "fst ` set COMMIT_TYPES = set [''feat'', ''fix'', ''docs'', ''style'', ''refactor'', ''perf'',
      ''test'', ''build'', ''ci'', ''chore'', ''revert'']"
    by (simp add: COMMIT_TYPES_def)
  from classify_result_props[OF assms] obtain r where r: "classify_commit m = Inr r"
    "type r \<in> fst ` set COMMIT_TYPES" "0.5 \<le> confidence r" "confidence r \<le> 0.95" by blast
  from r(1) have "\<exists>!r. classify_commit m = Inr r" by simp
  moreover have "type r \<in> set [''feat'', ''fix'', ''docs'', ''style'', ''refactor'', ''perf'', ''test'',
                      ''build'', ''ci'', ''chore'', ''revert'']"
    using r(2) unfolding keys .
  ultimately show ?thesis using r by blast
qed

theorem C3_result_invariant_witness:
  "(\<exists>!r. classify_commit ''xyz random text'' = Inr r) \<and>
    (\<exists>r. classify_commit ''xyz random text'' = Inr r \<and>
       type r \<in> set [''feat'', ''fix'', ''docs'', ''style'', ''refactor'', ''perf'', ''test'',
                      ''build'', ''ci'', ''chore'', ''revert''] \<and>
       type r \<in> fst ` set COMMIT_TYPES \<and>
       0.5 \<le> confidence r \<and> confidence r \<le> 0.95)"
proof -
  have h: "strip ''xyz random text'' \<noteq> []" by code_simp
  show ?thesis by (rule C3_result_invariant[OF h])
qed

text \<open>
  C4. \<open>classify_commit\<close> raises the error of the empty message, an \<open>HTTPException\<close> with
  status 400, exactly when the message is empty after trimming, and returns a
  classification exactly when it is not; it raises nothing else. The empty message and a
  message of three spaces both raise the error.
\<close>

theorem C4_empty_input_error:
  "(classify_commit m = Inl (HTTPException 400 ''Empty commit message'')) = (strip m = []) \<and>
   (\<exists>r. classify_commit m = Inr r) = (strip m \<noteq> []) \<and>
   classify_commit [] = Inl (HTTPException 400 ''Empty commit message'') \<and>
   classify_commit ''   '' = Inl (HTTPException 400 ''Empty commit message'')"
proof -
  have 1: "(classify_commit m = Inl (HTTPException 400 ''Empty commit message'')) = (strip m = [])"
  proof (cases "strip m = []")
    case True
    then show ?thesis by (simp add: classify_empty)
  next
    case False
    from classify_result_props[OF this] obtain r where "classify_commit m = Inr r" by blast
    with False show ?thesis by simp
  qed
  have 2: "(\<exists>r. classify_commit m = Inr r) = (strip m \<noteq> [])"
  proof (cases "strip m = []")
    case True
    then show ?thesis by (simp add: classify_empty)
  next
    case False
    from classify_result_props[OF this] obtain r where "classify_commit m = Inr r" by blast
    with False show ?thesis by auto
  qed
  have 3: "strip [] = []" "strip ''   '' = []" by code_simp+
  show ?thesis using 1 2 3 by (simp add: classify_empty)
qed

theorem C4_empty_input_error_witness:
  "classify_commit ''  \<newline>  '' = Inl (HTTPException 400 ''Empty commit message'') \<and>
   (\<exists>r. classify_commit ''fix the parser'' = Inr r)"
proof -
  have h1: "strip ''  \<newline>  '' = []" by code_simp
  have h2: "strip ''fix the parser'' \<noteq> []" by code_simp
  from C4_empty_input_error[of "''  \<newline>  ''"] C4_empty_input_error[of "''fix the parser''"] h1 h2
  show ?thesis by blast
qed

text \<open>
  C5. When a pattern matches the trimmed message, the scope returned is what
  \<open>extract_scope\<close> finds in it: the contents of the leftmost parenthesized group (an opening
  parenthesis, one or more characters other than a closing parenthesis, a closing
  parenthesis), wherever it stands in the message, and none when the message has no
  such group. When no pattern matches, the scope is none and the description is the
  trimmed message.
\<close>

theorem C5_scope:
  assumes "strip m \<noteq> []"
  shows "\<exists>r. classify_commit m = Inr r \<and>
    ((\<exists>x \<in> set COMMIT_TYPES. re_match True (pattern (snd x)) (strip m) \<noteq> None) \<longrightarrow>
        scope r = extract_scope (strip m) \<and>
        (scope r = None) = (\<not> (\<exists>pre g post. paren_group (strip m) pre g post)) \<and>
        (\<forall>g. scope r = Some g \<longrightarrow>
           (\<exists>pre post. paren_group (strip m) pre g post \<and>
              (\<forall>pre' g' post'. paren_group (strip m) pre' g' post' \<longrightarrow> length pre \<le> length pre')))) \<and>
    ((\<forall>x \<in> set COMMIT_TYPES. re_match True (pattern (snd x)) (strip m) = None) \<longrightarrow>
        scope r = None \<and> description r = strip m)"
  using classify_cases[OF assms]
proof
  assume "\<exists>(t, info) \<in> set COMMIT_TYPES. re_match True (pattern info) (strip m) \<noteq> None \<and>
            classify_commit m = Inr (conventional_result t (strip m))"
  then obtain t info where a: "(t, info) \<in> set COMMIT_TYPES"
    "re_match True (pattern info) (strip m) \<noteq> None"
    "classify_commit m = Inr (conventional_result t (strip m))" by auto
  let ?r = "conventional_result t (strip m)"
  have s: "scope ?r = extract_scope (strip m)" by (simp add: conventional_result_def)
  have n: "(scope ?r = None) = (\<not> (\<exists>pre g post. paren_group (strip m) pre g post))"
    unfolding s extract_scope_eq by (rule first_paren_group_None)
  have f: "\<forall>g. scope ?r = Some g \<longrightarrow>
           (\<exists>pre post. paren_group (strip m) pre g post \<and>
              (\<forall>pre' g' post'. paren_group (strip m) pre' g' post' \<longrightarrow> length pre \<le> length pre'))"
    unfolding s extract_scope_eq using first_paren_group_Some by blast
  have "\<exists>x \<in> set COMMIT_TYPES. re_match True (pattern (snd x)) (strip m) \<noteq> None"
    by (rule bexI[OF _ a(1)]) (simp add: a(2))
  then have nofb: "\<not> (\<forall>x \<in> set COMMIT_TYPES. re_match True (pattern (snd x)) (strip m) = None)"
    by simp
  have c1: "(\<exists>x \<in> set COMMIT_TYPES. re_match True (pattern (snd x)) (strip m) \<noteq> None) \<longrightarrow>
        scope ?r = extract_scope (strip m) \<and>
        (scope ?r = None) = (\<not> (\<exists>pre g post. paren_group (strip m) pre g post)) \<and>
        (\<forall>g. scope ?r = Some g \<longrightarrow>
           (\<exists>pre post. paren_group (strip m) pre g post \<and>
              (\<forall>pre' g' post'. paren_group (strip m) pre' g' post' \<longrightarrow> length pre \<le> length pre')))"
    by (intro impI conjI, rule s, rule n, rule f)
  have c2: "(\<forall>x \<in> set COMMIT_TYPES. re_match True (pattern (snd x)) (strip m) = None) \<longrightarrow>
        scope ?r = None \<and> description ?r = strip m"
    using nofb by blast
  show ?thesis by (intro exI[of _ ?r] conjI, rule a(3), rule c1, rule c2)
next
  assume a: "conventional_loop (strip m) COMMIT_TYPES = None \<and>
            classify_commit m = Inr (fallback_result (strip m))"
  let ?r = "fallback_result (strip m)"
  from a have fb: "\<forall>x \<in> set COMMIT_TYPES. re_match True (pattern (snd x)) (strip m) = None"
    by (auto simp: conventional_loop_None)
  have d: "scope ?r = None" "description ?r = strip m"
    by (simp_all add: fallback_result_def Let_def)
  have c1: "(\<exists>x \<in> set COMMIT_TYPES. re_match True (pattern (snd x)) (strip m) \<noteq> None) \<longrightarrow>
        scope ?r = extract_scope (strip m) \<and>
        (scope ?r = None) = (\<not> (\<exists>pre g post. paren_group (strip m) pre g post)) \<and>
        (\<forall>g. scope ?r = Some g \<longrightarrow>
           (\<exists>pre post. paren_group (strip m) pre g post \<and>
              (\<forall>pre' g' post'. paren_group (strip m) pre' g' post' \<longrightarrow> length pre \<le> length pre')))"
  proof
    assume ex: "\<exists>x \<in> set COMMIT_TYPES. re_match True (pattern (snd x)) (strip m) \<noteq> None"
    have "\<not> (\<exists>x \<in> set COMMIT_TYPES. re_match True (pattern (snd x)) (strip m) \<noteq> None)"
      using fb by simp
    from this ex show "scope ?r = extract_scope (strip m) \<and>
        (scope ?r = None) = (\<not> (\<exists>pre g post. paren_group (strip m) pre g post)) \<and>
        (\<forall>g. scope ?r = Some g \<longrightarrow>
           (\<exists>pre post. paren_group (strip m) pre g post \<and>
              (\<forall>pre' g' post'. paren_group (strip m) pre' g' post' \<longrightarrow> length pre \<le> length pre')))"
      by (rule notE)
  qed
  have c2: "(\<forall>x \<in> set COMMIT_TYPES. re_match True (pattern (snd x)) (strip m) = None) \<longrightarrow>
        scope ?r = None \<and> description ?r = strip m"
    using d by simp
  have c0: "classify_commit m = Inr ?r" using a by simp
  show ?thesis by (intro exI[of _ ?r] conjI, rule c0, rule c1, rule c2)
qed

theorem C5_scope_witness:
  "(\<exists>r. classify_commit ''fix(api): resolve (CORS) issue'' = Inr r \<and> scope r = Some ''api'') \<and>
   (\<exists>r. classify_commit ''feat: add (login) page'' = Inr r \<and> scope r = Some ''login'') \<and>
   (\<exists>r. classify_commit ''fixed the (payment) bug'' = Inr r \<and> scope r = None \<and>
      description r = ''fixed the (payment) bug'')"
proof -
  have h1: "strip ''fix(api): resolve (CORS) issue'' \<noteq> []" by code_simp
  have h2: "\<exists>x \<in> set COMMIT_TYPES.
      re_match True (pattern (snd x)) (strip ''fix(api): resolve (CORS) issue'') \<noteq> None" by code_simp
  have e: "extract_scope (strip ''fix(api): resolve (CORS) issue'') = Some ''api''" by code_simp
  have h5: "strip ''feat: add (login) page'' \<noteq> []" by code_simp
  have h6: "\<exists>x \<in> set COMMIT_TYPES.
      re_match True (pattern (snd x)) (strip ''feat: add (login) page'') \<noteq> None" by code_simp
  have e': "extract_scope (strip ''feat: add (login) page'') = Some ''login''" by code_simp
  have h3: "strip ''fixed the (payment) bug'' \<noteq> []" by code_simp
  have h4: "\<forall>x \<in> set COMMIT_TYPES.
      re_match True (pattern (snd x)) (strip ''fixed the (payment) bug'') = None" by code_simp
  have s: "strip ''fixed the (payment) bug'' = ''fixed the (payment) bug''" by code_simp
  from C5_scope[OF h1] h2 e
  have 1: "\<exists>r. classify_commit ''fix(api): resolve (CORS) issue'' = Inr r \<and> scope r = Some ''api''"
    by auto
  from C5_scope[OF h5] h6 e'
  have 2: "\<exists>r. classify_commit ''feat: add (login) page'' = Inr r \<and> scope r = Some ''login''"
    by auto
  from C5_scope[OF h3] h4 s
  have 3: "\<exists>r. classify_commit ''fixed the (payment) bug'' = Inr r \<and> scope r = None \<and>
      description r = ''fixed the (payment) bug''"
    by auto
  from 1 2 3 show ?thesis by blast
qed

text \<open>
  C6. The suggestions for a classified message contain the advice to add more details
  exactly when the message as given, not trimmed, is shorter than 10 characters, and the
  advice to keep the summary under 72 characters exactly when it is longer than 100.
\<close>

theorem C6_length_suggestions:
  assumes "classify_commit msg = Inr c"
  shows "\<exists>sugg. generate_suggestions msg c = Inr sugg \<and>
    (''Commit message is too short. Add more details.'' \<in> set sugg) = (length msg < 10) \<and>
    (''Commit message is long. Consider keeping summary under 72 characters.'' \<in> set sugg)
       = (100 < length msg)"
proof -
  have ne: "strip msg \<noteq> []" by (rule classify_Inr_nonempty[OF assms])
  from classify_result_props[OF ne] assms
  have "type c \<in> fst ` set COMMIT_TYPES" "description c \<noteq> []" "\<not> isspace (hd (description c))"
    by auto
  from generate_suggestions_ok[OF this] obtain sugg where s: "generate_suggestions msg c = Inr sugg"
    by blast
  from generate_suggestions_lengths[OF s] s show ?thesis by blast
qed

theorem C6_length_suggestions_witness:
  "\<exists>sugg. generate_suggestions ''feat: x''
       \<lparr>type = ''feat'', scope = None, description = ''x'', confidence = 0.95\<rparr> = Inr sugg \<and>
     ''Commit message is too short. Add more details.'' \<in> set sugg \<and>
     ''Commit message is long. Consider keeping summary under 72 characters.'' \<notin> set sugg"
proof -
  have h: "classify_commit ''feat: x'' =
      Inr \<lparr>type = ''feat'', scope = None, description = ''x'', confidence = 0.95\<rparr>" by code_simp
  have l: "length ''feat: x'' < 10" "\<not> 100 < length ''feat: x''" by simp_all
  from C6_length_suggestions[OF h] l show ?thesis by blast
qed

text \<open>
  The message \<open>fix: bug\<close> with two spaces before and after it has 8 characters when
  trimmed and 12 as given: it is classified, and its suggestions do not contain the
  advice to add more details.
\<close>

theorem C6_trimmed_length_counterexample:
  "length (strip ''  fix: bug  '') < 10 \<and>
   classify_commit ''  fix: bug  '' =
     Inr \<lparr>type = ''fix'', scope = None, description = ''bug'', confidence = 0.95\<rparr> \<and>
   generate_suggestions ''  fix: bug  ''
     \<lparr>type = ''fix'', scope = None, description = ''bug'', confidence = 0.95\<rparr> =
     Inr [''Consider using conventional format: fix: bug'']"
  by code_simp

text \<open>
  C7. \<open>classify_batch\<close> returns one record for each message, in the order of the
  messages, and a total equal to their number. The record of a message depends on that
  message alone (and on a reading of the clock): it is the outcome of classifying it, and
  for a message that is empty after trimming it is an error record that holds the message
  and the text of the error, while the other messages are processed as usual.
\<close>

theorem C7_batch:
  "total (classify_batch clock msgs) = length msgs \<and>
   length (results (classify_batch clock msgs)) = length msgs \<and>
   map item_message (results (classify_batch clock msgs)) = msgs \<and>
   (\<forall>i < length msgs. \<exists>j. results (classify_batch clock msgs) ! i = item_outcome (clock j) (msgs ! i)) \<and>
   (\<forall>i < length msgs. strip (msgs ! i) = [] \<longrightarrow>
      results (classify_batch clock msgs) ! i = Failed (msgs ! i) ''400: Empty commit message'')"
proof -
  have r: "results (classify_batch clock msgs) = batch_loop clock 0 msgs"
    "total (classify_batch clock msgs) = length (batch_loop clock 0 msgs)"
    by (simp_all add: classify_batch_def Let_def)
  have n: "\<forall>i < length msgs. \<exists>j. results (classify_batch clock msgs) ! i = item_outcome (clock j) (msgs ! i)"
    unfolding r(1) using batch_loop_nth by blast
  have e: "\<forall>i < length msgs. strip (msgs ! i) = [] \<longrightarrow>
      results (classify_batch clock msgs) ! i = Failed (msgs ! i) ''400: Empty commit message''"
  proof (intro allI impI)
    fix i assume i: "i < length msgs" and s: "strip (msgs ! i) = []"
    from n i obtain j where "results (classify_batch clock msgs) ! i = item_outcome (clock j) (msgs ! i)"
      by blast
    then show "results (classify_batch clock msgs) ! i = Failed (msgs ! i) ''400: Empty commit message''"
      by (simp only: item_outcome_empty[OF s])
  qed
  have l: "length (results (classify_batch clock msgs)) = length msgs"
    "total (classify_batch clock msgs) = length msgs"
    "map item_message (results (classify_batch clock msgs)) = msgs"
    unfolding r by (rule batch_loop_length, rule batch_loop_length, rule batch_loop_messages)
  from l n e show ?thesis by blast
qed

theorem C7_batch_witness:
  "total (classify_batch (\<lambda>k. ''t'') [''feat: x'', ''  '', ''added new feature'']) = 3 \<and>
   length (results (classify_batch (\<lambda>k. ''t'') [''feat: x'', ''  '', ''added new feature''])) = 3 \<and>
   results (classify_batch (\<lambda>k. ''t'') [''feat: x'', ''  '', ''added new feature'']) ! 1 =
     Failed ''  '' ''400: Empty commit message'' \<and>
   map item_message (results (classify_batch (\<lambda>k. ''t'') [''feat: x'', ''  '', ''added new feature''])) =
     [''feat: x'', ''  '', ''added new feature'']"
proof -
  let ?msgs = "[''feat: x'', ''  '', ''added new feature'']"
  let ?b = "classify_batch (\<lambda>k. ''t'') ?msgs"
  have h: "(1::nat) < length ?msgs" "strip (?msgs ! 1) = []" by code_simp+
  note c = C7_batch[of "\<lambda>k. ''t''" ?msgs]
  from c have 1: "total ?b = length ?msgs" "length (results ?b) = length ?msgs"
    "map item_message (results ?b) = ?msgs" by blast+
  from c h have 2: "results ?b ! 1 = Failed (?msgs ! 1) ''400: Empty commit message''" by blast
  from 1 2 show ?thesis by simp
qed

text \<open>
  C8. On the message \<open>feat: Added login\<close> the description is \<open>Added login\<close>, and the
  suggestions contain both the advice to use the imperative mood and the advice to start
  the description with a lowercase letter. Each of the two checks fires without the
  other: on \<open>feat: added login\<close> only the first, on \<open>feat: Add login\<close> only the second.
\<close>

theorem C8_added_login_suggestions:
  "classify_commit ''feat: Added login'' =
     Inr \<lparr>type = ''feat'', scope = None, description = ''Added login'', confidence = 0.95\<rparr>
   \<and> generate_suggestions ''feat: Added login''
       \<lparr>type = ''feat'', scope = None, description = ''Added login'', confidence = 0.95\<rparr> =
     Inr [''Use imperative mood (e.g., 'add' instead of 'added')'',
          ''Start description with lowercase letter'']
   \<and> generate_suggestions ''feat: added login''
       \<lparr>type = ''feat'', scope = None, description = ''added login'', confidence = 0.95\<rparr> =
     Inr [''Use imperative mood (e.g., 'add' instead of 'added')'']
   \<and> generate_suggestions ''feat: Add login''
       \<lparr>type = ''feat'', scope = None, description = ''Add login'', confidence = 0.95\<rparr> =
     Inr [''Start description with lowercase letter'']"
  by code_simp

text \<open>
  C9. When no pattern matches the trimmed message, the test of the pattern inside
  \<open>calculate_confidence\<close> fails for every type of the table, so that \<open>calculate_confidence\<close>
  never returns 0.95 there, and the confidence of the classification is at most 0.9.
\<close>

theorem C9_fallback_confidence:
  assumes "strip m \<noteq> []" and "conventional_loop (strip m) COMMIT_TYPES = None"
  shows "(\<forall>(t, info) \<in> set COMMIT_TYPES.
            re_match True (pattern info) (strip m) = None \<and>
            (\<exists>c. calculate_confidence (strip m) t = Inr c \<and> c \<le> 0.9)) \<and>
         (\<exists>r. classify_commit m = Inr r \<and> confidence r \<le> 0.9)"
proof -
  have nm: "\<forall>(t, info) \<in> set COMMIT_TYPES. re_match True (pattern info) (strip m) = None"
    using assms(2) by (simp add: conventional_loop_None)
  have "\<exists>c. calculate_confidence (strip m) t = Inr c \<and> c \<le> 0.9"
    if "(t, info) \<in> set COMMIT_TYPES" for t info
  proof -
    from that nm have n: "re_match True (pattern info) (strip m) = None" by auto
    show ?thesis
    proof (cases "0 < keyword_matches (keywords info) (lower (strip m))")
      case True
      then show ?thesis
        using calculate_confidence_fallback[OF that n] kw_conf_bounds[OF True] by simp
    next
      case False
      then have "calculate_confidence (strip m) t = Inr 0.5"
        using calculate_confidence_fallback[OF that n] by simp
      moreover have "(0.5::real) \<le> 0.9" by simp
      ultimately show ?thesis by blast
    qed
  qed
  with nm have 1: "\<forall>(t, info) \<in> set COMMIT_TYPES.
            re_match True (pattern info) (strip m) = None \<and>
            (\<exists>c. calculate_confidence (strip m) t = Inr c \<and> c \<le> 0.9)" by auto
  have "classify_commit m = Inr (fallback_result (strip m))"
    by (rule classify_fallback[OF assms])
  with fallback_result_confidence[of "strip m"]
  have 2: "\<exists>r. classify_commit m = Inr r \<and> confidence r \<le> 0.9" by simp
  from 1 2 show ?thesis by blast
qed

theorem C9_fallback_confidence_witness:
  "(\<exists>c. calculate_confidence (strip ''add new implement fix bug resolve correct'') ''fix'' = Inr c \<and> c \<le> 0.9) \<and>
   (\<exists>r. classify_commit ''add new implement fix bug resolve correct'' = Inr r \<and> confidence r \<le> 0.9)"
proof -
  have h1: "strip ''add new implement fix bug resolve correct'' \<noteq> []" by code_simp
  have h2: "conventional_loop (strip ''add new implement fix bug resolve correct'') COMMIT_TYPES = None"
    by code_simp
  have h3: "(''fix'', snd (COMMIT_TYPES ! 1)) \<in> set COMMIT_TYPES" by (simp add: COMMIT_TYPES_def)
  from C9_fallback_confidence[OF h1 h2] h3 show ?thesis by blast
qed

text \<open>
  C10. The description of the classification of a message that is not empty after
  trimming is not empty and has no whitespace at its start or at its end, so that its
  first word exists; when no pattern matches, it is the trimmed message.
\<close>

theorem C10_description_trimmed:
  assumes "strip m \<noteq> []"
  shows "\<exists>r. classify_commit m = Inr r \<and> description r \<noteq> [] \<and>
    \<not> isspace (hd (description r)) \<and> \<not> isspace (last (description r)) \<and>
    strip (description r) = description r \<and>
    (\<exists>w. first_word_of (description r) = Inr w) \<and>
    (conventional_loop (strip m) COMMIT_TYPES = None \<longrightarrow> description r = strip m)"
proof -
  from classify_result_props[OF assms] obtain r where r: "classify_commit m = Inr r"
    "description r \<noteq> []" "\<not> isspace (hd (description r))" "\<not> isspace (last (description r))"
    by blast
  have f: "conventional_loop (strip m) COMMIT_TYPES = None \<longrightarrow> description r = strip m"
  proof
    assume "conventional_loop (strip m) COMMIT_TYPES = None"
    from classify_fallback[OF assms this] r(1) have "r = fallback_result (strip m)" by simp
    then show "description r = strip m" by (simp add: fallback_result_def Let_def)
  qed
  have s: "strip (description r) = description r" by (rule strip_fixed[OF r(2,3,4)])
  have w: "\<exists>w. first_word_of (description r) = Inr w" by (rule first_word_of_ok[OF r(2,3)])
  have "classify_commit m = Inr r \<and> description r \<noteq> [] \<and>
    \<not> isspace (hd (description r)) \<and> \<not> isspace (last (description r)) \<and>
    strip (description r) = description r \<and>
    (\<exists>w. first_word_of (description r) = Inr w) \<and>
    (conventional_loop (strip m) COMMIT_TYPES = None \<longrightarrow> description r = strip m)"
    using r s w f by simp
  then show ?thesis by (rule exI)
qed

theorem C10_description_trimmed_witness:
  "\<exists>r. classify_commit '' docs:   update  README  '' = Inr r \<and> description r \<noteq> [] \<and>
    \<not> isspace (hd (description r)) \<and> \<not> isspace (last (description r)) \<and>
    strip (description r) = description r \<and>
    (\<exists>w. first_word_of (description r) = Inr w)"
proof -
  have h: "strip '' docs:   update  README  '' \<noteq> []" by code_simp
  from C10_description_trimmed[OF h] obtain r where
    "classify_commit '' docs:   update  README  '' = Inr r \<and> description r \<noteq> [] \<and>
    \<not> isspace (hd (description r)) \<and> \<not> isspace (last (description r)) \<and>
    strip (description r) = description r \<and>
    (\<exists>w. first_word_of (description r) = Inr w)" by auto
  then show ?thesis by (rule exI)
qed

end
